theory Spec2Isabelle
  imports Complex_Main "HOL-Library.Sublist"
begin

section \<open>Univariate Newton-Raphson method: the notebook's functions\<close>

text \<open>
  The notebook \<^verbatim>\<open>01_univar_newton.ipynb\<close> computes the \<open>b\<close>-th root of \<open>x\<close> by two
  iterations, \<^verbatim>\<open>root_newton\<close> and \<^verbatim>\<open>root_binary\<close>, each returning the list of
  all its candidates.

  Numbers: the notebook declares \<open>x \<in> \<real>\<^sub>+\<close> and \<open>b \<in> \<nat>\<close>; the exponent \<open>b\<close> and the
  cap \<open>max_iter\<close> are natural numbers throughout. The functions are written twice.
  This first section writes them over the exact reals (type \<open>real\<close>), where the one
  exception the code can raise is the \<^verbatim>\<open>ZeroDivisionError\<close> of Python's true division.
  That is the arithmetic of the notebook's mathematics; it says nothing of rounding
  or overflow. The second section writes the same code over an arbitrary arithmetic
  in which every operation may raise, with Python's own \<^verbatim>\<open>int\<close> and binary64 \<^verbatim>\<open>float\<close>
  as an instance. The properties that depend on how Python computes (that a call
  returns at all, the values of the loop tests, the width of the bracket) are stated
  over the second; the first carries the mathematics of the method (the derivatives,
  the bracket and the root, the validation run) and the shape of the returned lists.
\<close>

datatype error = ZeroDivisionError | OverflowError

subsection \<open>Cost function\<close>

text \<open>\<^verbatim>\<open>L = lambda x_k, x, b: (x_k**b - x)**2\<close>\<close>

definition L :: "real \<Rightarrow> real \<Rightarrow> nat \<Rightarrow> real" where
  "L x_k x b = (x_k ^ b - x) ^ 2"

text \<open>\<^verbatim>\<open>d1L = lambda x_k, x, b: 2*b*(x_k**(b+1) - x*x_k)\<close>\<close>

definition d1L :: "real \<Rightarrow> real \<Rightarrow> nat \<Rightarrow> real" where
  "d1L x_k x b = 2 * real b * (x_k ^ (b + 1) - x * x_k)"

text \<open>\<^verbatim>\<open>d2L = lambda x_k, x, b: 2*b*((b+1)*x_k**b - x)\<close>\<close>

definition d2L :: "real \<Rightarrow> real \<Rightarrow> nat \<Rightarrow> real" where
  "d2L x_k x b = 2 * real b * (real (b + 1) * x_k ^ b - x)"

subsection \<open>Newton-Raphson method\<close>

text \<open>
  \<^verbatim>\<open>
  def root_newton(x, b, tol=10**-17, max_iter=2000):
      x_k = x / 2                    # starting guess
      x_list = [x_k]                 # list collecting all candidates
      while d1L(x_k, x, b) > tol and len(x_list) < max_iter:
          x_k -= d1L(x_k, x, b)/d2L(x_k, x, b)
          x_list.append(x_k)
      return x_list
  \<close>
  The state of the loop is the pair \<open>(x_k, x_list)\<close>. \<open>newton_cond\<close> is the loop test,
  \<open>newton_body\<close> one execution of the body (it raises when the divisor is zero), and
  \<open>newton_loop\<close> the whole \<^verbatim>\<open>while\<close>.
\<close>

type_synonym newton_state = "real \<times> real list"

fun newton_cond :: "real \<Rightarrow> nat \<Rightarrow> real \<Rightarrow> nat \<Rightarrow> newton_state \<Rightarrow> bool" where
  "newton_cond x b tol max_iter (x_k, x_list) =
     (d1L x_k x b > tol \<and> length x_list < max_iter)"

fun newton_body :: "real \<Rightarrow> nat \<Rightarrow> newton_state \<Rightarrow> error + newton_state" where
  "newton_body x b (x_k, x_list) =
     (if d2L x_k x b = 0 then Inl ZeroDivisionError
      else (let x_k = x_k - d1L x_k x b / d2L x_k x b
            in Inr (x_k, x_list @ [x_k])))"

function newton_loop ::
  "real \<Rightarrow> nat \<Rightarrow> real \<Rightarrow> nat \<Rightarrow> newton_state \<Rightarrow> error + newton_state" where
  "newton_loop x b tol max_iter s =
     (if newton_cond x b tol max_iter s
      then (case newton_body x b s of
              Inl e \<Rightarrow> Inl e
            | Inr s' \<Rightarrow> newton_loop x b tol max_iter s')
      else Inr s)"
  by pat_completeness auto
termination
  by (relation "measure (\<lambda>(x, b, tol, max_iter, s). max_iter - length (snd s))")
     (auto simp: Let_def split: if_splits)

declare newton_loop.simps [simp del]

definition root_newton :: "real \<Rightarrow> nat \<Rightarrow> real \<Rightarrow> nat \<Rightarrow> error + real list" where
  "root_newton x b tol max_iter =
     (let x_k = x / 2;
          x_list = [x_k]
      in map_sum id snd (newton_loop x b tol max_iter (x_k, x_list)))"

subsection \<open>Binary search\<close>

text \<open>
  \<^verbatim>\<open>
  def root_binary(x, b, tol=10**-16, max_iter=2000):
      high = x / 2
      low = 0
      mean = (high + low) / 2
      x_list = [mean]
      while abs(mean**b-x) > tol and len(x_list) < max_iter:
          mean = (high + low) / 2
          if mean**b > x:
              high = mean
          else:
              low = mean
          x_list.append(mean)
      return x_list
  \<close>
  The state of the loop is \<open>(high, low, mean, x_list)\<close>; over the reals nothing here
  can raise.
\<close>

type_synonym binary_state = "real \<times> real \<times> real \<times> real list"

definition binary_init :: "real \<Rightarrow> binary_state" where
  "binary_init x =
     (let high = x / 2;
          low = 0;
          mean = (high + low) / 2
      in (high, low, mean, [mean]))"

fun binary_cond :: "real \<Rightarrow> nat \<Rightarrow> real \<Rightarrow> nat \<Rightarrow> binary_state \<Rightarrow> bool" where
  "binary_cond x b tol max_iter (high, low, mean, x_list) =
     (\<bar>mean ^ b - x\<bar> > tol \<and> length x_list < max_iter)"

fun binary_body :: "real \<Rightarrow> nat \<Rightarrow> binary_state \<Rightarrow> binary_state" where
  "binary_body x b (high, low, mean, x_list) =
     (let mean = (high + low) / 2
      in if mean ^ b > x then (mean, low, mean, x_list @ [mean])
         else (high, mean, mean, x_list @ [mean]))"

function binary_loop ::
  "real \<Rightarrow> nat \<Rightarrow> real \<Rightarrow> nat \<Rightarrow> binary_state \<Rightarrow> binary_state" where
  "binary_loop x b tol max_iter s =
     (if binary_cond x b tol max_iter s
      then binary_loop x b tol max_iter (binary_body x b s)
      else s)"
  by pat_completeness auto
termination
  by (relation "measure (\<lambda>(x, b, tol, max_iter, s). max_iter - length (snd (snd (snd s))))")
     (auto simp: Let_def)

declare binary_loop.simps [simp del]

definition root_binary :: "real \<Rightarrow> nat \<Rightarrow> real \<Rightarrow> nat \<Rightarrow> real list" where
  "root_binary x b tol max_iter =
     snd (snd (snd (binary_loop x b tol max_iter (binary_init x))))"

text \<open>The accessors of a bisection state.\<close>

definition high_of :: "binary_state \<Rightarrow> real" where
  "high_of s = fst s"

definition low_of :: "binary_state \<Rightarrow> real" where
  "low_of s = fst (snd s)"

definition mean_of :: "binary_state \<Rightarrow> real" where
  "mean_of s = fst (snd (snd s))"

definition x_list_of :: "binary_state \<Rightarrow> real list" where
  "x_list_of s = snd (snd (snd s))"


definition binary_tol_default :: real where
  "binary_tol_default = 1 / 10 ^ 16"

definition max_iter_default :: nat where
  "max_iter_default = 2000"

subsection \<open>Notions used to state the properties\<close>

text \<open>
  \<open>binary_after x b k\<close> is the state of \<^verbatim>\<open>root_binary\<close> after \<open>k\<close> executions of the
  loop body, started from the initial state.
\<close>

definition binary_after :: "real \<Rightarrow> nat \<Rightarrow> nat \<Rightarrow> binary_state" where
  "binary_after x b k = (binary_body x b ^^ k) (binary_init x)"

text \<open>
  The bisection as the specification words it, independent of the loop: the bounds
  start as \<open>high = x/2\<close>, \<open>low = 0\<close>; each iteration takes \<open>mean = (high + low)/2\<close> and
  sets \<open>high = mean\<close> if \<open>mean\<^sup>b > x\<close> and \<open>low = mean\<close> otherwise. \<open>spec_bracket x b k\<close>
  is the pair \<open>(high, low)\<close> after \<open>k\<close> iterations, and \<open>spec_mean x b k\<close> the \<open>k\<close>-th
  element appended to the trajectory: the first is \<open>x/4\<close>, the \<open>(k+1)\<close>-th is the
  midpoint of the bounds left by \<open>k\<close> iterations.
\<close>

fun spec_bracket :: "real \<Rightarrow> nat \<Rightarrow> nat \<Rightarrow> real \<times> real" where
  "spec_bracket x b 0 = (x / 2, 0)"
| "spec_bracket x b (Suc k) =
     (let (high, low) = spec_bracket x b k;
          mean = (high + low) / 2
      in if mean ^ b > x then (mean, low) else (high, mean))"

fun spec_mean :: "real \<Rightarrow> nat \<Rightarrow> nat \<Rightarrow> real" where
  "spec_mean x b 0 = x / 4"
| "spec_mean x b (Suc k) = (let (high, low) = spec_bracket x b k in (high + low) / 2)"

text \<open>
  One Newton step recorded in a trajectory \<open>zs\<close> at index \<open>k\<close>: the loop test held at
  \<open>zs ! k\<close>, the divisor was not zero, and \<open>zs ! (k+1)\<close> is the Newton update of \<open>zs ! k\<close>.
\<close>

definition newton_step_ok :: "real \<Rightarrow> nat \<Rightarrow> real \<Rightarrow> nat \<Rightarrow> real list \<Rightarrow> nat \<Rightarrow> bool" where
  "newton_step_ok x b tol max_iter zs k \<longleftrightarrow>
     tol < d1L (zs ! k) x b \<and> Suc k < max_iter \<and> d2L (zs ! k) x b \<noteq> 0 \<and>
     zs ! Suc k = zs ! k - d1L (zs ! k) x b / d2L (zs ! k) x b"

section \<open>The same functions over Python's numbers\<close>

text \<open>
  Python evaluates the notebook on binary64 floats, where a power can overflow
  (\<^verbatim>\<open>OverflowError\<close>), a product can become \<open>inf\<close> and then \<open>nan\<close>, and every result is
  rounded. To state what the code does whatever the arithmetic does, the two functions
  are written a second time over an arbitrary type of numbers \<open>'a\<close> with the operations
  the code uses: an \<open>'a arith\<close> gives the value of a Python \<^verbatim>\<open>int\<close> and the results of
  \<^verbatim>\<open>+\<close>, \<^verbatim>\<open>-\<close>, \<^verbatim>\<open>*\<close>, \<^verbatim>\<open>/\<close>, \<^verbatim>\<open>**\<close> (to an \<^verbatim>\<open>int\<close> exponent), \<^verbatim>\<open>abs\<close> and \<^verbatim>\<open>>\<close>, each of which
  may raise where Python's can. The operations are applied in the order in which Python
  evaluates the expressions, so that the first exception is the one the code raises.
  A statement proved for every \<open>'a arith\<close> holds for Python's own arithmetic.

  Two arithmetics are defined below: \<open>exact_arith\<close>, the reals, under which these
  functions are the ones of the first section (lemmas \<open>exact_root_newton\<close> and
  \<open>exact_root_binary\<close>), and \<open>binary64\<close>, Python's \<^verbatim>\<open>int\<close> and \<^verbatim>\<open>float\<close>.
\<close>

record 'a arith =
  py_int :: "int \<Rightarrow> 'a"
  py_add :: "'a \<Rightarrow> 'a \<Rightarrow> error + 'a"
  py_sub :: "'a \<Rightarrow> 'a \<Rightarrow> error + 'a"
  py_mul :: "'a \<Rightarrow> 'a \<Rightarrow> error + 'a"
  py_truediv :: "'a \<Rightarrow> 'a \<Rightarrow> error + 'a"
  py_pow :: "'a \<Rightarrow> nat \<Rightarrow> error + 'a"
  py_abs :: "'a \<Rightarrow> 'a"
  py_gt :: "'a \<Rightarrow> 'a \<Rightarrow> bool"

text \<open>Sequencing: the second computation runs unless the first has raised.\<close>

definition and_then :: "error + 'a \<Rightarrow> ('a \<Rightarrow> error + 'b) \<Rightarrow> error + 'b" where
  "and_then m f = (case m of Inl e \<Rightarrow> Inl e | Inr v \<Rightarrow> f v)"

subsection \<open>The derivatives\<close>

text \<open>
  \<^verbatim>\<open>2*b*(x_k**(b+1) - x*x_k)\<close>: Python computes the \<^verbatim>\<open>int\<close> \<open>2*b\<close>, then the power, then
  the product \<open>x*x_k\<close>, the difference, and last the product with \<open>2*b\<close>.
\<close>

definition py_d1L :: "'a arith \<Rightarrow> 'a \<Rightarrow> 'a \<Rightarrow> nat \<Rightarrow> error + 'a" where
  "py_d1L A x_k x b =
     and_then (py_pow A x_k (b + 1)) (\<lambda>p.
     and_then (py_mul A x x_k) (\<lambda>m.
     and_then (py_sub A p m) (\<lambda>d.
     py_mul A (py_int A (2 * int b)) d)))"

text \<open>\<^verbatim>\<open>2*b*((b+1)*x_k**b - x)\<close>\<close>

definition py_d2L :: "'a arith \<Rightarrow> 'a \<Rightarrow> 'a \<Rightarrow> nat \<Rightarrow> error + 'a" where
  "py_d2L A x_k x b =
     and_then (py_pow A x_k b) (\<lambda>p.
     and_then (py_mul A (py_int A (int b + 1)) p) (\<lambda>m.
     and_then (py_sub A m x) (\<lambda>d.
     py_mul A (py_int A (2 * int b)) d)))"

subsection \<open>\<^verbatim>\<open>root_newton\<close>\<close>

text \<open>
  The loop test evaluates \<open>d1L\<close> first (the \<^verbatim>\<open>and\<close> is evaluated left to right); the body
  evaluates \<open>d1L\<close>, \<open>d2L\<close>, their quotient and the difference, and appends the new
  candidate.
\<close>

type_synonym 'a py_newton_state = "'a \<times> 'a list"

fun py_newton_cond ::
  "'a arith \<Rightarrow> 'a \<Rightarrow> nat \<Rightarrow> 'a \<Rightarrow> nat \<Rightarrow> 'a py_newton_state \<Rightarrow> error + bool" where
  "py_newton_cond A x b tol max_iter (x_k, x_list) =
     and_then (py_d1L A x_k x b) (\<lambda>d.
     Inr (py_gt A d tol \<and> length x_list < max_iter))"

fun py_newton_body ::
  "'a arith \<Rightarrow> 'a \<Rightarrow> nat \<Rightarrow> 'a py_newton_state \<Rightarrow> error + 'a py_newton_state" where
  "py_newton_body A x b (x_k, x_list) =
     and_then (py_d1L A x_k x b) (\<lambda>d1.
     and_then (py_d2L A x_k x b) (\<lambda>d2.
     and_then (py_truediv A d1 d2) (\<lambda>q.
     and_then (py_sub A x_k q) (\<lambda>x_k.
     Inr (x_k, x_list @ [x_k])))))"

function py_newton_loop ::
  "'a arith \<Rightarrow> 'a \<Rightarrow> nat \<Rightarrow> 'a \<Rightarrow> nat \<Rightarrow> 'a py_newton_state \<Rightarrow> error + 'a py_newton_state"
  where
  "py_newton_loop A x b tol max_iter s =
     (case py_newton_cond A x b tol max_iter s of
        Inl e \<Rightarrow> Inl e
      | Inr c \<Rightarrow>
          if c then (case py_newton_body A x b s of
                       Inl e \<Rightarrow> Inl e
                     | Inr s' \<Rightarrow> py_newton_loop A x b tol max_iter s')
          else Inr s)"
  by pat_completeness auto
termination
  by (relation "measure (\<lambda>(A, x, b, tol, max_iter, s). max_iter - length (snd s))")
     (auto simp: and_then_def split: sum.splits)

declare py_newton_loop.simps [simp del]

definition py_root_newton :: "'a arith \<Rightarrow> 'a \<Rightarrow> nat \<Rightarrow> 'a \<Rightarrow> nat \<Rightarrow> error + 'a list" where
  "py_root_newton A x b tol max_iter =
     and_then (py_truediv A x (py_int A 2)) (\<lambda>x_k.
     and_then (py_newton_loop A x b tol max_iter (x_k, [x_k])) (\<lambda>s.
     Inr (snd s)))"

subsection \<open>\<^verbatim>\<open>root_binary\<close>\<close>

text \<open>
  \<open>low\<close> starts as the \<^verbatim>\<open>int\<close> \<open>0\<close>. \<open>py_midpoint\<close> is \<^verbatim>\<open>(high + low) / 2\<close>, \<open>py_binary_test\<close>
  is \<^verbatim>\<open>abs(mean**b-x) > tol\<close>.
\<close>

type_synonym 'a py_binary_state = "'a \<times> 'a \<times> 'a \<times> 'a list"

definition py_midpoint :: "'a arith \<Rightarrow> 'a \<Rightarrow> 'a \<Rightarrow> error + 'a" where
  "py_midpoint A high low =
     and_then (py_add A high low) (\<lambda>s. py_truediv A s (py_int A 2))"

definition py_binary_init :: "'a arith \<Rightarrow> 'a \<Rightarrow> error + 'a py_binary_state" where
  "py_binary_init A x =
     and_then (py_truediv A x (py_int A 2)) (\<lambda>high.
     let low = py_int A 0 in
     and_then (py_midpoint A high low) (\<lambda>mean.
     Inr (high, low, mean, [mean])))"

definition py_binary_test :: "'a arith \<Rightarrow> 'a \<Rightarrow> nat \<Rightarrow> 'a \<Rightarrow> 'a \<Rightarrow> error + bool" where
  "py_binary_test A x b tol mean =
     and_then (py_pow A mean b) (\<lambda>p.
     and_then (py_sub A p x) (\<lambda>d.
     Inr (py_gt A (py_abs A d) tol)))"

fun py_binary_cond ::
  "'a arith \<Rightarrow> 'a \<Rightarrow> nat \<Rightarrow> 'a \<Rightarrow> nat \<Rightarrow> 'a py_binary_state \<Rightarrow> error + bool" where
  "py_binary_cond A x b tol max_iter (high, low, mean, x_list) =
     and_then (py_binary_test A x b tol mean) (\<lambda>c.
     Inr (c \<and> length x_list < max_iter))"

fun py_binary_body ::
  "'a arith \<Rightarrow> 'a \<Rightarrow> nat \<Rightarrow> 'a py_binary_state \<Rightarrow> error + 'a py_binary_state" where
  "py_binary_body A x b (high, low, mean, x_list) =
     and_then (py_midpoint A high low) (\<lambda>mean.
     and_then (py_pow A mean b) (\<lambda>p.
     if py_gt A p x then Inr (mean, low, mean, x_list @ [mean])
     else Inr (high, mean, mean, x_list @ [mean])))"

function py_binary_loop ::
  "'a arith \<Rightarrow> 'a \<Rightarrow> nat \<Rightarrow> 'a \<Rightarrow> nat \<Rightarrow> 'a py_binary_state \<Rightarrow> error + 'a py_binary_state"
  where
  "py_binary_loop A x b tol max_iter s =
     (case py_binary_cond A x b tol max_iter s of
        Inl e \<Rightarrow> Inl e
      | Inr c \<Rightarrow>
          if c then (case py_binary_body A x b s of
                       Inl e \<Rightarrow> Inl e
                     | Inr s' \<Rightarrow> py_binary_loop A x b tol max_iter s')
          else Inr s)"
  by pat_completeness auto
termination
  by (relation "measure (\<lambda>(A, x, b, tol, max_iter, s). max_iter - length (snd (snd (snd s))))")
     (auto simp: and_then_def split: sum.splits if_splits)

declare py_binary_loop.simps [simp del]

definition py_root_binary :: "'a arith \<Rightarrow> 'a \<Rightarrow> nat \<Rightarrow> 'a \<Rightarrow> nat \<Rightarrow> error + 'a list" where
  "py_root_binary A x b tol max_iter =
     and_then (py_binary_init A x) (\<lambda>s.
     and_then (py_binary_loop A x b tol max_iter s) (\<lambda>s'.
     Inr (snd (snd (snd s')))))"

text \<open>The state of \<^verbatim>\<open>root_binary\<close> after \<open>k\<close> executions of the loop body.\<close>

fun py_binary_after :: "'a arith \<Rightarrow> 'a \<Rightarrow> nat \<Rightarrow> nat \<Rightarrow> error + 'a py_binary_state" where
  "py_binary_after A x b 0 = py_binary_init A x"
| "py_binary_after A x b (Suc k) = and_then (py_binary_after A x b k) (py_binary_body A x b)"

subsection \<open>Notions used to state the properties\<close>

text \<open>
  One Newton step recorded in a returned trajectory \<open>zs\<close> at index \<open>k\<close>: the loop test
  was evaluated at \<open>zs ! k\<close> and held, and \<open>zs ! (k+1)\<close> is the result of the update.
\<close>

definition py_newton_step ::
  "'a arith \<Rightarrow> 'a \<Rightarrow> nat \<Rightarrow> 'a \<Rightarrow> nat \<Rightarrow> 'a list \<Rightarrow> nat \<Rightarrow> bool" where
  "py_newton_step A x b tol max_iter zs k \<longleftrightarrow>
     (\<exists>d1 d2 q. py_d1L A (zs ! k) x b = Inr d1 \<and> py_gt A d1 tol \<and> Suc k < max_iter \<and>
        py_d2L A (zs ! k) x b = Inr d2 \<and> py_truediv A d1 d2 = Inr q \<and>
        py_sub A (zs ! k) q = Inr (zs ! Suc k))"

text \<open>
  The bisection as the specification words it, in an arbitrary arithmetic:
  \<open>py_spec_bracket A x b k\<close> is the pair \<open>(high, low)\<close> after \<open>k\<close> iterations, starting from
  \<open>high = x/2\<close>, \<open>low = 0\<close>, each iteration setting \<open>high = mean\<close> if \<open>mean\<^sup>b > x\<close> and
  \<open>low = mean\<close> otherwise, where \<open>mean = (high + low)/2\<close>; \<open>py_spec_mean A x b k\<close> is the
  \<open>k\<close>-th element appended to the trajectory: the midpoint of the initial bounds for
  \<open>k = 0\<close>, and of the bounds left by \<open>k - 1\<close> iterations otherwise.
\<close>

fun py_spec_bracket :: "'a arith \<Rightarrow> 'a \<Rightarrow> nat \<Rightarrow> nat \<Rightarrow> error + 'a \<times> 'a" where
  "py_spec_bracket A x b 0 =
     and_then (py_truediv A x (py_int A 2)) (\<lambda>high. Inr (high, py_int A 0))"
| "py_spec_bracket A x b (Suc k) =
     and_then (py_spec_bracket A x b k) (\<lambda>(high, low).
     and_then (py_midpoint A high low) (\<lambda>mean.
     and_then (py_pow A mean b) (\<lambda>p.
     if py_gt A p x then Inr (mean, low) else Inr (high, mean))))"

definition py_spec_mean :: "'a arith \<Rightarrow> 'a \<Rightarrow> nat \<Rightarrow> nat \<Rightarrow> error + 'a" where
  "py_spec_mean A x b k =
     and_then (py_spec_bracket A x b (k - 1)) (\<lambda>(high, low). py_midpoint A high low)"

subsection \<open>Exact arithmetic\<close>

text \<open>The reals: nothing is rounded, and only a division by zero raises.\<close>

definition exact_arith :: "real arith" where
  "exact_arith =
     \<lparr> py_int = of_int,
       py_add = (\<lambda>a b. Inr (a + b)),
       py_sub = (\<lambda>a b. Inr (a - b)),
       py_mul = (\<lambda>a b. Inr (a * b)),
       py_truediv = (\<lambda>a b. if b = 0 then Inl ZeroDivisionError else Inr (a / b)),
       py_pow = (\<lambda>a n. Inr (a ^ n)),
       py_abs = abs,
       py_gt = (\<lambda>a b. a > b) \<rparr>"

subsection \<open>Python's \<^verbatim>\<open>int\<close> and \<^verbatim>\<open>float\<close>\<close>

text \<open>
  A \<^verbatim>\<open>float\<close> is a finite binary64 number, an infinity or a \<open>nan\<close>; the sign of a zero,
  which none of the operations below lets the code observe, is not kept. A finite
  operation returns the exact result rounded to nearest, ties to even (\<open>round64\<close>:
  53 significant bits, subnormal numbers below \<open>2\<^sup>-\<^sup>1\<^sup>0\<^sup>2\<^sup>2\<close>), or an infinity when
  the rounded result exceeds the largest float (\<open>fl\<close>). What Python adds to IEEE 754:
  a division by zero raises \<^verbatim>\<open>ZeroDivisionError\<close>; a power of finite numbers whose
  result is infinite raises \<^verbatim>\<open>OverflowError\<close>; an \<^verbatim>\<open>int\<close> operand of a \<^verbatim>\<open>float\<close> operation is
  converted first, which raises \<^verbatim>\<open>OverflowError\<close> when it is too large; \<^verbatim>\<open>int\<close> by \<^verbatim>\<open>int\<close>
  operations are exact, the true division of two \<^verbatim>\<open>int\<close>s being their correctly rounded
  quotient; comparisons of an \<^verbatim>\<open>int\<close> with a \<^verbatim>\<open>float\<close> compare the exact values. The C
  library's \<^verbatim>\<open>pow\<close> is taken as correctly rounded; the statements below that use
  \<open>binary64\<close> evaluate powers only where the result is exact, zero or overflows.
\<close>

datatype pyfloat = Fin real | PInf | NInf | NaN

datatype pynum = PyInt int | PyFloat pyfloat

definition round_even :: "real \<Rightarrow> int" where
  "round_even y =
     (let f = \<lfloor>y\<rfloor>; d = y - of_int f
      in if d < 1 / 2 then f
         else if 1 / 2 < d then f + 1
         else if even f then f else f + 1)"

definition round64 :: "real \<Rightarrow> real" where
  "round64 r =
     (if r = 0 then 0
      else (let e = max \<lfloor>log 2 \<bar>r\<bar>\<rfloor> (- 1022);
                u = 2 powr (of_int e - 52)
            in u * of_int (round_even (r / u))))"

definition max_float :: real where
  "max_float = 2 ^ 1024 - 2 ^ 971"

definition fl :: "real \<Rightarrow> pyfloat" where
  "fl r =
     (let q = round64 r
      in if max_float < q then PInf
         else if q < - max_float then NInf
         else Fin q)"

fun fneg :: "pyfloat \<Rightarrow> pyfloat" where
  "fneg (Fin a) = Fin (- a)"
| "fneg PInf = NInf"
| "fneg NInf = PInf"
| "fneg NaN = NaN"

fun fadd :: "pyfloat \<Rightarrow> pyfloat \<Rightarrow> pyfloat" where
  "fadd NaN _ = NaN"
| "fadd _ NaN = NaN"
| "fadd PInf NInf = NaN"
| "fadd NInf PInf = NaN"
| "fadd PInf _ = PInf"
| "fadd _ PInf = PInf"
| "fadd NInf _ = NInf"
| "fadd _ NInf = NInf"
| "fadd (Fin a) (Fin b) = fl (a + b)"

definition fsub :: "pyfloat \<Rightarrow> pyfloat \<Rightarrow> pyfloat" where
  "fsub a b = fadd a (fneg b)"

definition inf_of_sign :: "bool \<Rightarrow> pyfloat" where
  "inf_of_sign positive = (if positive then PInf else NInf)"

fun fmul :: "pyfloat \<Rightarrow> pyfloat \<Rightarrow> pyfloat" where
  "fmul NaN _ = NaN"
| "fmul _ NaN = NaN"
| "fmul (Fin a) (Fin b) = fl (a * b)"
| "fmul (Fin a) PInf = (if a = 0 then NaN else inf_of_sign (0 < a))"
| "fmul (Fin a) NInf = (if a = 0 then NaN else inf_of_sign (a < 0))"
| "fmul PInf (Fin b) = (if b = 0 then NaN else inf_of_sign (0 < b))"
| "fmul NInf (Fin b) = (if b = 0 then NaN else inf_of_sign (b < 0))"
| "fmul PInf PInf = PInf"
| "fmul PInf NInf = NInf"
| "fmul NInf PInf = NInf"
| "fmul NInf NInf = PInf"

text \<open>\<^verbatim>\<open>float\<close> division: a zero divisor raises, whatever the dividend.\<close>

fun fdiv :: "pyfloat \<Rightarrow> pyfloat \<Rightarrow> error + pyfloat" where
  "fdiv a (Fin b) =
     (if b = 0 then Inl ZeroDivisionError
      else (case a of
              Fin a' \<Rightarrow> Inr (fl (a' / b))
            | PInf \<Rightarrow> Inr (inf_of_sign (0 < b))
            | NInf \<Rightarrow> Inr (inf_of_sign (b < 0))
            | NaN \<Rightarrow> Inr NaN))"
| "fdiv NaN _ = Inr NaN"
| "fdiv _ NaN = Inr NaN"
| "fdiv (Fin a) _ = Inr (Fin 0)"
| "fdiv _ _ = Inr NaN"

definition finite_or_overflow :: "pyfloat \<Rightarrow> error + real" where
  "finite_or_overflow v = (case v of Fin q \<Rightarrow> Inr q | _ \<Rightarrow> Inl OverflowError)"

text \<open>The conversion of an \<^verbatim>\<open>int\<close> to a \<^verbatim>\<open>float\<close>.\<close>

definition int_to_float :: "int \<Rightarrow> error + real" where
  "int_to_float n = finite_or_overflow (fl (of_int n))"

text \<open>
  \<^verbatim>\<open>float ** int\<close> for an exponent that is not negative, \<open>w\<close> being the exponent
  converted to a \<^verbatim>\<open>float\<close>: \<open>1.0\<close> for the exponent \<open>0\<close>, then \<open>nan\<close> and the infinities, a
  zero base, and the rounded power, which raises when it overflows.
\<close>

definition float_pow :: "pyfloat \<Rightarrow> real \<Rightarrow> error + pyfloat" where
  "float_pow v w =
     (if w = 0 then Inr (Fin 1)
      else (case v of
              NaN \<Rightarrow> Inr NaN
            | PInf \<Rightarrow> Inr PInf
            | NInf \<Rightarrow> Inr (if odd (nat \<lfloor>w\<rfloor>) then NInf else PInf)
            | Fin a \<Rightarrow>
                if a = 0 then Inr (Fin 0)
                else and_then (finite_or_overflow (fl (a ^ nat \<lfloor>w\<rfloor>))) (\<lambda>q. Inr (Fin q))))"

fun fgt :: "pyfloat \<Rightarrow> pyfloat \<Rightarrow> bool" where
  "fgt NaN _ = False"
| "fgt _ NaN = False"
| "fgt (Fin a) (Fin b) = (a > b)"
| "fgt PInf PInf = False"
| "fgt PInf _ = True"
| "fgt _ PInf = False"
| "fgt NInf _ = False"
| "fgt _ NInf = True"

fun fabs :: "pyfloat \<Rightarrow> pyfloat" where
  "fabs (Fin a) = Fin \<bar>a\<bar>"
| "fabs PInf = PInf"
| "fabs NInf = PInf"
| "fabs NaN = NaN"

definition to_float :: "pynum \<Rightarrow> error + pyfloat" where
  "to_float v =
     (case v of
        PyInt n \<Rightarrow> and_then (int_to_float n) (\<lambda>q. Inr (Fin q))
      | PyFloat f \<Rightarrow> Inr f)"

definition float_op ::
  "(pyfloat \<Rightarrow> pyfloat \<Rightarrow> error + pyfloat) \<Rightarrow> pynum \<Rightarrow> pynum \<Rightarrow> error + pynum" where
  "float_op f v w =
     and_then (to_float v) (\<lambda>a.
     and_then (to_float w) (\<lambda>b.
     and_then (f a b) (\<lambda>r. Inr (PyFloat r))))"

fun num_add :: "pynum \<Rightarrow> pynum \<Rightarrow> error + pynum" where
  "num_add (PyInt m) (PyInt n) = Inr (PyInt (m + n))"
| "num_add v w = float_op (\<lambda>a b. Inr (fadd a b)) v w"

fun num_sub :: "pynum \<Rightarrow> pynum \<Rightarrow> error + pynum" where
  "num_sub (PyInt m) (PyInt n) = Inr (PyInt (m - n))"
| "num_sub v w = float_op (\<lambda>a b. Inr (fsub a b)) v w"

fun num_mul :: "pynum \<Rightarrow> pynum \<Rightarrow> error + pynum" where
  "num_mul (PyInt m) (PyInt n) = Inr (PyInt (m * n))"
| "num_mul v w = float_op (\<lambda>a b. Inr (fmul a b)) v w"

fun num_truediv :: "pynum \<Rightarrow> pynum \<Rightarrow> error + pynum" where
  "num_truediv (PyInt m) (PyInt n) =
     (if n = 0 then Inl ZeroDivisionError
      else and_then (finite_or_overflow (fl (of_int m / of_int n))) (\<lambda>q.
           Inr (PyFloat (Fin q))))"
| "num_truediv v w = float_op fdiv v w"

fun num_pow :: "pynum \<Rightarrow> nat \<Rightarrow> error + pynum" where
  "num_pow (PyInt m) n = Inr (PyInt (m ^ n))"
| "num_pow (PyFloat a) n =
     and_then (int_to_float (int n)) (\<lambda>w.
     and_then (float_pow a w) (\<lambda>r. Inr (PyFloat r)))"

fun num_abs :: "pynum \<Rightarrow> pynum" where
  "num_abs (PyInt m) = PyInt \<bar>m\<bar>"
| "num_abs (PyFloat a) = PyFloat (fabs a)"

fun num_gt :: "pynum \<Rightarrow> pynum \<Rightarrow> bool" where
  "num_gt (PyInt m) (PyInt n) = (m > n)"
| "num_gt (PyInt m) (PyFloat b) = fgt (Fin (of_int m)) b"
| "num_gt (PyFloat a) (PyInt n) = fgt a (Fin (of_int n))"
| "num_gt (PyFloat a) (PyFloat b) = fgt a b"

definition binary64 :: "pynum arith" where
  "binary64 =
     \<lparr> py_int = PyInt,
       py_add = num_add,
       py_sub = num_sub,
       py_mul = num_mul,
       py_truediv = num_truediv,
       py_pow = num_pow,
       py_abs = num_abs,
       py_gt = num_gt \<rparr>"

text \<open>Whether a Python number is finite, and its value as a real number.\<close>

fun num_finite :: "pynum \<Rightarrow> bool" where
  "num_finite (PyInt n) = True"
| "num_finite (PyFloat (Fin r)) = True"
| "num_finite (PyFloat _) = False"

fun num_real :: "pynum \<Rightarrow> real" where
  "num_real (PyInt n) = of_int n"
| "num_real (PyFloat (Fin r)) = r"
| "num_real (PyFloat _) = 0"

text \<open>
  The bounds of \<^verbatim>\<open>root_binary\<close> on floats: \<open>high\<close> is a finite float, \<open>low\<close> is the \<^verbatim>\<open>int\<close> \<open>0\<close>
  it starts as or a finite float, both are unchanged by rounding, \<open>0 \<le> low \<le> high\<close>, and
  \<open>2 high\<close> does not exceed the largest float (so that \<open>high + low\<close> cannot overflow).
\<close>

fun float_bracket :: "pynum \<Rightarrow> pynum \<Rightarrow> bool" where
  "float_bracket (PyFloat (Fin h)) (PyInt n) =
     (n = 0 \<and> round64 h = h \<and> 0 \<le> h \<and> 2 * h \<le> max_float)"
| "float_bracket (PyFloat (Fin h)) (PyFloat (Fin l)) =
     (round64 h = h \<and> round64 l = l \<and> 0 \<le> l \<and> l \<le> h \<and> 2 * h \<le> max_float)"
| "float_bracket _ _ = False"

section \<open>Basic facts about the loops\<close>

lemma newton_loop_stop:
  "\<not> newton_cond x b tol max_iter s \<Longrightarrow> newton_loop x b tol max_iter s = Inr s"
  by (simp add: newton_loop.simps)

lemma newton_loop_step:
  "newton_cond x b tol max_iter s \<Longrightarrow>
   newton_loop x b tol max_iter s =
     (case newton_body x b s of Inl e \<Rightarrow> Inl e | Inr s' \<Rightarrow> newton_loop x b tol max_iter s')"
  by (simp add: newton_loop.simps)

lemma binary_loop_stop:
  "\<not> binary_cond x b tol max_iter s \<Longrightarrow> binary_loop x b tol max_iter s = s"
  by (simp add: binary_loop.simps)

lemma binary_loop_step:
  "binary_cond x b tol max_iter s \<Longrightarrow>
   binary_loop x b tol max_iter s = binary_loop x b tol max_iter (binary_body x b s)"
  by (simp add: binary_loop.simps)

subsection \<open>The bisection loop as an iteration of its body\<close>

lemma binary_init_fields:
  "high_of (binary_init x) = x / 2" "low_of (binary_init x) = 0"
  "mean_of (binary_init x) = x / 4" "x_list_of (binary_init x) = [x / 4]"
  by (simp_all add: binary_init_def high_of_def low_of_def mean_of_def x_list_of_def Let_def)

lemma binary_body_x_list:
  "x_list_of (binary_body x b s) = x_list_of s @ [mean_of (binary_body x b s)]"
  by (cases s) (simp add: x_list_of_def mean_of_def Let_def)

lemma binary_body_mean:
  "mean_of (binary_body x b s) = (high_of s + low_of s) / 2"
  by (cases s) (simp add: high_of_def low_of_def mean_of_def Let_def)

lemma binary_body_high:
  "high_of (binary_body x b s) =
     (if ((high_of s + low_of s) / 2) ^ b > x then (high_of s + low_of s) / 2 else high_of s)"
  by (cases s) (simp add: high_of_def low_of_def Let_def)

lemma binary_body_low:
  "low_of (binary_body x b s) =
     (if ((high_of s + low_of s) / 2) ^ b > x then low_of s else (high_of s + low_of s) / 2)"
  by (cases s) (simp add: high_of_def low_of_def Let_def)

lemma binary_cond_of:
  "binary_cond x b tol max_iter s =
     (\<bar>mean_of s ^ b - x\<bar> > tol \<and> length (x_list_of s) < max_iter)"
  by (cases s) (simp add: mean_of_def x_list_of_def)

lemma root_binary_of: "root_binary x b tol max_iter = x_list_of (binary_loop x b tol max_iter (binary_init x))"
  by (simp add: root_binary_def x_list_of_def)

lemma binary_loop_iterate:
  "\<exists>n. binary_loop x b tol max_iter s = (binary_body x b ^^ n) s \<and>
       (\<forall>j<n. binary_cond x b tol max_iter ((binary_body x b ^^ j) s)) \<and>
       \<not> binary_cond x b tol max_iter ((binary_body x b ^^ n) s)"
proof (induction x b tol max_iter s rule: binary_loop.induct)
  case (1 x b tol max_iter s)
  show ?case
  proof (cases "binary_cond x b tol max_iter s")
    case False
    then have "binary_loop x b tol max_iter s = (binary_body x b ^^ 0) s"
      by (simp add: binary_loop_stop)
    with False show ?thesis
      by (intro exI[of _ 0]) simp
  next
    case True
    from "1.IH"[OF True] obtain n where
      n: "binary_loop x b tol max_iter (binary_body x b s) =
            (binary_body x b ^^ n) (binary_body x b s)"
         "\<forall>j<n. binary_cond x b tol max_iter ((binary_body x b ^^ j) (binary_body x b s))"
         "\<not> binary_cond x b tol max_iter ((binary_body x b ^^ n) (binary_body x b s))"
      by blast
    have "\<forall>j<Suc n. binary_cond x b tol max_iter ((binary_body x b ^^ j) s)"
    proof (intro allI impI)
      fix j assume "j < Suc n"
      show "binary_cond x b tol max_iter ((binary_body x b ^^ j) s)"
      proof (cases j)
        case 0
        with True show ?thesis by simp
      next
        case (Suc i)
        with \<open>j < Suc n\<close> n(2) show ?thesis
          by (simp add: funpow_swap1)
      qed
    qed
    with n(1,3) True show ?thesis
      by (intro exI[of _ "Suc n"]) (simp add: binary_loop_step funpow_swap1)
  qed
qed

lemma iterate_x_list:
  "x_list_of ((binary_body x b ^^ k) s) =
     x_list_of s @ map (\<lambda>j. mean_of ((binary_body x b ^^ Suc j) s)) [0..<k]"
  by (induction k) (simp_all add: binary_body_x_list)

lemma iterate_length:
  "length (x_list_of ((binary_body x b ^^ k) s)) = length (x_list_of s) + k"
  by (simp add: iterate_x_list)

lemma iterate_nth:
  "k \<le> n \<Longrightarrow> x_list_of ((binary_body x b ^^ n) (binary_init x)) ! k =
      mean_of ((binary_body x b ^^ k) (binary_init x))"
proof (induction n)
  case 0
  then show ?case by (simp add: binary_init_fields)
next
  case (Suc n)
  show ?case
  proof (cases "k = Suc n")
    case True
    then show ?thesis
      by (simp add: binary_body_x_list nth_append iterate_length binary_init_fields)
  next
    case False
    with Suc show ?thesis
      by (simp add: binary_body_x_list nth_append iterate_length binary_init_fields)
  qed
qed


lemma binary_after_0: "binary_after x b 0 = binary_init x"
  by (simp add: binary_after_def)

lemma binary_after_Suc: "binary_after x b (Suc k) = binary_body x b (binary_after x b k)"
  by (simp add: binary_after_def)

lemma binary_loop_after:
  "\<exists>n. binary_loop x b tol max_iter (binary_init x) = binary_after x b n \<and>
       root_binary x b tol max_iter = x_list_of (binary_after x b n) \<and>
       length (root_binary x b tol max_iter) = Suc n \<and>
       (\<forall>j<n. binary_cond x b tol max_iter (binary_after x b j)) \<and>
       \<not> binary_cond x b tol max_iter (binary_after x b n)"
proof -
  from binary_loop_iterate[of x b tol max_iter "binary_init x"] obtain n where
    n: "binary_loop x b tol max_iter (binary_init x) = (binary_body x b ^^ n) (binary_init x)"
       "\<forall>j<n. binary_cond x b tol max_iter ((binary_body x b ^^ j) (binary_init x))"
       "\<not> binary_cond x b tol max_iter ((binary_body x b ^^ n) (binary_init x))"
    by blast
  then show ?thesis
    by (intro exI[of _ n])
       (simp add: root_binary_of iterate_length binary_init_fields binary_after_def)
qed

lemma binary_after_length: "length (x_list_of (binary_after x b k)) = Suc k"
  by (simp add: binary_after_def iterate_length binary_init_fields)

lemma binary_after_nth:
  "k \<le> n \<Longrightarrow> x_list_of (binary_after x b n) ! k = mean_of (binary_after x b k)"
  by (simp add: binary_after_def iterate_nth)

lemma binary_after_last:
  "last (x_list_of (binary_after x b n)) = mean_of (binary_after x b n)"
  using binary_after_nth[of n n x b] binary_after_length[of x b n]
  by (simp add: last_conv_nth length_greater_0_conv[symmetric] del: length_greater_0_conv)



lemma binary_loop_extends:
  "prefix (x_list_of s) (x_list_of (binary_loop x b tol max_iter s))"
proof -
  from binary_loop_iterate[of x b tol max_iter s] obtain n where
    "binary_loop x b tol max_iter s = (binary_body x b ^^ n) s" by blast
  then show ?thesis
    by (simp add: iterate_x_list)
qed

lemma root_binary_length:
  "1 \<le> max_iter \<Longrightarrow> length (root_binary x b tol max_iter) \<le> max_iter"
proof -
  assume m: "1 \<le> max_iter"
  from binary_loop_after[of x b tol max_iter] obtain n where
    n: "length (root_binary x b tol max_iter) = Suc n"
       "\<forall>j<n. binary_cond x b tol max_iter (binary_after x b j)"
    by blast
  show ?thesis
  proof (cases n)
    case 0
    with n(1) m show ?thesis by simp
  next
    case (Suc j)
    with n(2) have "binary_cond x b tol max_iter (binary_after x b j)" by simp
    then have "Suc j < max_iter"
      by (simp add: binary_cond_of binary_after_length)
    with n(1) Suc show ?thesis by simp
  qed
qed

lemma after_spec:
  "spec_bracket x b k = (high_of (binary_after x b k), low_of (binary_after x b k)) \<and>
   spec_mean x b k = mean_of (binary_after x b k)"
proof (induction k)
  case 0
  show ?case by (simp add: binary_after_0 binary_init_fields)
next
  case (Suc k)
  then show ?case
    by (simp add: binary_after_Suc binary_body_high binary_body_low binary_body_mean Let_def)
qed

lemma root_binary_spec_means:
  "root_binary x b tol max_iter =
     map (spec_mean x b) [0..<length (root_binary x b tol max_iter)]"
proof -
  from binary_loop_after[of x b tol max_iter] obtain n where
    n: "root_binary x b tol max_iter = x_list_of (binary_after x b n)"
       "length (root_binary x b tol max_iter) = Suc n"
    by blast
  show ?thesis
  proof (rule nth_equalityI)
    show "length (root_binary x b tol max_iter) =
          length (map (spec_mean x b) [0..<length (root_binary x b tol max_iter)])"
      by simp
  next
    fix i assume "i < length (root_binary x b tol max_iter)"
    then have i: "i \<le> n" using n(2) by simp
    have "root_binary x b tol max_iter ! i = mean_of (binary_after x b i)"
      unfolding n(1) by (rule binary_after_nth[OF i])
    also have "\<dots> = spec_mean x b i"
      using after_spec[of x b i] by simp
    finally show "root_binary x b tol max_iter ! i =
        map (spec_mean x b) [0..<length (root_binary x b tol max_iter)] ! i"
      using \<open>i < length (root_binary x b tol max_iter)\<close> by simp
  qed
qed

lemma root_binary_conds:
  "(Suc k < length (root_binary x b tol max_iter) \<longrightarrow>
      \<bar>spec_mean x b k ^ b - x\<bar> > tol \<and> Suc k < max_iter) \<and>
   \<not> (\<bar>last (root_binary x b tol max_iter) ^ b - x\<bar> > tol \<and>
        length (root_binary x b tol max_iter) < max_iter)"
proof -
  from binary_loop_after[of x b tol max_iter] obtain n where
    n: "root_binary x b tol max_iter = x_list_of (binary_after x b n)"
       "length (root_binary x b tol max_iter) = Suc n"
       "\<forall>j<n. binary_cond x b tol max_iter (binary_after x b j)"
       "\<not> binary_cond x b tol max_iter (binary_after x b n)"
    by blast
  have a: "Suc k < length (root_binary x b tol max_iter) \<longrightarrow>
      \<bar>spec_mean x b k ^ b - x\<bar> > tol \<and> Suc k < max_iter"
  proof
    assume "Suc k < length (root_binary x b tol max_iter)"
    then have "k < n" using n(2) by simp
    with n(3) have "binary_cond x b tol max_iter (binary_after x b k)" by blast
    then show "\<bar>spec_mean x b k ^ b - x\<bar> > tol \<and> Suc k < max_iter"
      using after_spec[of x b k] by (simp add: binary_cond_of binary_after_length)
  qed
  have "last (root_binary x b tol max_iter) = mean_of (binary_after x b n)"
    unfolding n(1) by (rule binary_after_last)
  with n(4) n(2) have b: "\<not> (\<bar>last (root_binary x b tol max_iter) ^ b - x\<bar> > tol \<and>
        length (root_binary x b tol max_iter) < max_iter)"
    by (simp add: binary_cond_of binary_after_length)
  from a b show ?thesis by blast
qed

subsection \<open>The Newton loop: no division by zero from a positive start\<close>

lemma d1L_factor: "d1L y x b = 2 * real b * y * (y ^ b - x)"
  by (simp add: d1L_def algebra_simps)

lemma d1L_pos_imp:
  assumes "0 < y" "0 < d1L y x b"
  shows "x < y ^ b" "0 < b"
proof -
  have p: "0 < 2 * real b * y * (y ^ b - x)"
    using assms(2) by (simp add: d1L_factor)
  show "0 < b"
  proof (rule ccontr)
    assume "\<not> 0 < b"
    then have "b = 0" by simp
    with p show False by simp
  qed
  then have "0 < 2 * real b * y" using assms(1) by simp
  with p have "0 < y ^ b - x"
    by (rule zero_less_mult_pos)
  then show "x < y ^ b" by simp
qed

lemma newton_step_safe:
  assumes "0 < y" "0 \<le> tol" "tol < d1L y x b"
  shows "0 < d2L y x b" and "0 < y - d1L y x b / d2L y x b"
proof -
  have d1: "0 < d1L y x b" using assms by simp
  note xb = d1L_pos_imp[OF assms(1) d1]
  have yb: "0 < y ^ b" using assms(1) by simp
  have "0 < real b * y ^ b" using xb(2) yb by simp
  then have in_pos: "0 < real (b + 1) * y ^ b - x"
    using xb(1) by (simp add: algebra_simps)
  then show d2: "0 < d2L y x b"
    using xb(2) by (simp add: d2L_def)
  have "d1L y x b < y * d2L y x b"
  proof -
    have "y * d2L y x b - d1L y x b = 2 * real b * y * (real b * y ^ b)"
      by (simp add: d1L_def d2L_def algebra_simps)
    moreover have "0 < 2 * real b * y * (real b * y ^ b)"
      using xb(2) yb assms(1) by simp
    ultimately show ?thesis by linarith
  qed
  then have "d1L y x b / d2L y x b < y"
    using d2 by (simp add: divide_less_eq)
  then show "0 < y - d1L y x b / d2L y x b" by simp
qed

lemma newton_loop_char:
  "0 \<le> tol \<Longrightarrow> 0 < y \<Longrightarrow> ys \<noteq> [] \<Longrightarrow> last ys = y \<Longrightarrow>
     \<exists>y' zs. newton_loop x b tol max_iter (y, ys) = Inr (y', zs) \<and> prefix ys zs \<and>
        last zs = y' \<and> 0 < y' \<and>
        (\<forall>k. length ys \<le> Suc k \<and> Suc k < length zs \<longrightarrow> newton_step_ok x b tol max_iter zs k) \<and>
        \<not> newton_cond x b tol max_iter (y', zs)"
proof (induction x b tol max_iter "(y, ys)" arbitrary: y ys rule: newton_loop.induct)
  case (1 x b tol max_iter)
  show ?case
  proof (cases "newton_cond x b tol max_iter (y, ys)")
    case False
    then show ?thesis
      using "1.prems" by (auto simp: newton_loop_stop)
  next
    case True
    then have gt: "tol < d1L y x b" and len: "length ys < max_iter" by simp_all
    define y1 where "y1 = y - d1L y x b / d2L y x b"
    have d2: "0 < d2L y x b" and y1: "0 < y1"
      using newton_step_safe[OF \<open>0 < y\<close> \<open>0 \<le> tol\<close> gt] by (simp_all add: y1_def)
    have body: "newton_body x b (y, ys) = Inr (y1, ys @ [y1])"
      using d2 by (simp add: y1_def Let_def)
    from "1.hyps"[OF True body \<open>0 \<le> tol\<close> y1] obtain y' zs where
      r: "newton_loop x b tol max_iter (y1, ys @ [y1]) = Inr (y', zs)"
         "prefix (ys @ [y1]) zs" "last zs = y'" "0 < y'"
         "\<forall>k. length (ys @ [y1]) \<le> Suc k \<and> Suc k < length zs \<longrightarrow>
              newton_step_ok x b tol max_iter zs k"
         "\<not> newton_cond x b tol max_iter (y', zs)"
      by auto
    have loop: "newton_loop x b tol max_iter (y, ys) = Inr (y', zs)"
      using True body r(1) by (simp add: newton_loop_step)
    from r(2) obtain ws where zs: "zs = ys @ [y1] @ ws"
      by (auto simp: prefix_def)
    have pre: "prefix ys zs" by (simp add: zs)
    have n0: "0 < length ys" using \<open>ys \<noteq> []\<close> by simp
    have at: "zs ! (length ys - 1) = y" "zs ! length ys = y1"
      using \<open>ys \<noteq> []\<close> \<open>last ys = y\<close> n0
      by (simp_all add: zs nth_append last_conv_nth)
    have first: "newton_step_ok x b tol max_iter zs (length ys - 1)"
      using gt len d2 at n0 by (simp add: newton_step_ok_def y1_def)
    have "\<forall>k. length ys \<le> Suc k \<and> Suc k < length zs \<longrightarrow> newton_step_ok x b tol max_iter zs k"
    proof (intro allI impI)
      fix k assume k: "length ys \<le> Suc k \<and> Suc k < length zs"
      show "newton_step_ok x b tol max_iter zs k"
      proof (cases "Suc k = length ys")
        case True
        then have "k = length ys - 1" by simp
        with first show ?thesis by simp
      next
        case False
        with k have "length (ys @ [y1]) \<le> Suc k \<and> Suc k < length zs" by simp
        with r(5) show ?thesis by blast
      qed
    qed
    with loop pre r(3,4,6) show ?thesis by blast
  qed
qed

lemma root_newton_char:
  assumes "0 < x" "0 \<le> tol"
  shows "\<exists>xs. root_newton x b tol max_iter = Inr xs \<and> xs \<noteq> [] \<and> xs ! 0 = x / 2 \<and>
           0 < last xs \<and>
           (\<forall>k. Suc k < length xs \<longrightarrow> newton_step_ok x b tol max_iter xs k) \<and>
           \<not> (tol < d1L (last xs) x b \<and> length xs < max_iter)"
proof -
  have "0 < x / 2" using assms(1) by simp
  from newton_loop_char[OF assms(2) this, of "[x / 2]" x b max_iter] obtain y' zs where
    r: "newton_loop x b tol max_iter (x / 2, [x / 2]) = Inr (y', zs)" "prefix [x / 2] zs"
       "last zs = y'" "0 < y'"
       "\<forall>k. length [x / 2] \<le> Suc k \<and> Suc k < length zs \<longrightarrow> newton_step_ok x b tol max_iter zs k"
       "\<not> newton_cond x b tol max_iter (y', zs)"
    by auto
  from r(2) have z: "zs \<noteq> []" "zs ! 0 = x / 2"
    by (auto simp: prefix_def)
  have "root_newton x b tol max_iter = Inr zs"
    using r(1) by (simp add: root_newton_def Let_def)
  with z r(3,4,5,6) show ?thesis
    by (intro exI[of _ zs]) auto
qed

lemma newton_body_appends:
  "newton_body x b (x_k, x_list) = Inr (y, ys) \<Longrightarrow> ys = x_list @ [y]"
  by (auto simp: Let_def split: if_splits)

lemma newton_loop_extends:
  "newton_loop x b tol max_iter (y, ys) = Inr (y', zs) \<Longrightarrow>
     prefix ys zs \<and> (length ys \<le> max_iter \<longrightarrow> length zs \<le> max_iter)"
proof (induction x b tol max_iter "(y, ys)" arbitrary: y ys rule: newton_loop.induct)
  case (1 x b tol max_iter)
  show ?case
  proof (cases "newton_cond x b tol max_iter (y, ys)")
    case False
    with "1.prems" show ?thesis by (simp add: newton_loop_stop)
  next
    case True
    with "1.prems" obtain y1 ys1 where
      body: "newton_body x b (y, ys) = Inr (y1, ys1)" and
      rest: "newton_loop x b tol max_iter (y1, ys1) = Inr (y', zs)"
      by (auto simp: newton_loop_step split: sum.splits)
    from newton_body_appends[OF body] have ys1: "ys1 = ys @ [y1]" .
    from "1.hyps"[OF True body rest] have
      ih: "prefix ys1 zs" "length ys1 \<le> max_iter \<longrightarrow> length zs \<le> max_iter"
      by simp_all
    from True have "length ys < max_iter" by simp
    with ih ys1 show ?thesis
      by (auto simp: prefix_def)
  qed
qed

lemma d1L_start:
  "d1L (x / 2) x b = real b * x * ((x / 2) ^ b - x)"
  by (simp add: d1L_def algebra_simps)

lemma d1L_start_nonpos:
  assumes "0 < x" "(x / 2) ^ b \<le> x"
  shows "d1L (x / 2) x b \<le> 0"
proof -
  have "real b * x * ((x / 2) ^ b - x) \<le> 0"
    using assms by (simp add: mult_nonneg_nonpos)
  then show ?thesis by (simp add: d1L_start)
qed

lemma half_pow_le:
  fixes x :: real
  assumes "2 \<le> b" "0 < x" "x \<le> 2 powr (real b / (real b - 1))"
  shows "(x / 2) ^ b \<le> x"
proof -
  have b1: "0 < real b - 1" using assms(1) by simp
  have "x ^ (b - 1) \<le> (2 powr (real b / (real b - 1))) ^ (b - 1)"
    using assms by (intro power_mono) auto
  also have "\<dots> = 2 powr (real b / (real b - 1) * real (b - 1))"
    by (simp add: powr_powr powr_realpow[symmetric])
  also have "real b / (real b - 1) * real (b - 1) = real b"
    using assms(1) by (simp add: of_nat_diff)
  also have "(2::real) powr real b = 2 ^ b"
    by (simp add: powr_realpow)
  finally have le: "x ^ (b - 1) \<le> 2 ^ b" .
  have "x ^ b = x ^ (b - 1) * x"
    using assms(1) by (cases b) auto
  also have "\<dots> \<le> 2 ^ b * x"
    using le assms(2) by (simp add: mult_right_mono)
  finally have "x ^ b \<le> 2 ^ b * x" .
  then show ?thesis
    by (simp add: power_divide divide_le_eq mult.commute)
qed

lemma half_pow_ge:
  fixes x :: real
  assumes "2 \<le> b" "0 < x" "2 powr (real b / (real b - 1)) \<le> x"
  shows "x \<le> (x / 2) ^ b"
proof -
  have "(2 powr (real b / (real b - 1))) ^ (b - 1) \<le> x ^ (b - 1)"
    using assms by (intro power_mono) auto
  moreover have "(2 powr (real b / (real b - 1))) ^ (b - 1) =
      2 powr (real b / (real b - 1) * real (b - 1))"
    by (simp add: powr_powr powr_realpow[symmetric])
  moreover have "real b / (real b - 1) * real (b - 1) = real b"
    using assms(1) by (simp add: of_nat_diff)
  moreover have "(2::real) powr real b = 2 ^ b"
    by (simp add: powr_realpow)
  ultimately have le: "2 ^ b \<le> x ^ (b - 1)" by simp
  have "x ^ b = x ^ (b - 1) * x"
    using assms(1) by (cases b) auto
  moreover have "2 ^ b * x \<le> x ^ (b - 1) * x"
    using le assms(2) by (simp add: mult_right_mono)
  ultimately have "2 ^ b * x \<le> x ^ b" by simp
  then show ?thesis
    by (simp add: power_divide le_divide_eq mult.commute)
qed

section \<open>The iterations in exact arithmetic\<close>

text \<open>
  Over the reals, for \<open>x > 0\<close> and \<open>tol > 0\<close>, \<^verbatim>\<open>root_newton\<close> always returns: the
  candidate stays positive while \<open>d1L > tol\<close>, so that \<open>d2L\<close> is positive and the division
  never raises. The returned list starts with \<open>x/2\<close>, consecutive elements are Newton
  updates, the loop test held at every element before the last, and it fails at the
  last.
\<close>

lemma exact_newton_trajectory:
  assumes "0 < x" "1 \<le> b" "0 < tol" "1 \<le> max_iter"
  shows "\<exists>xs. root_newton x b tol max_iter = Inr xs \<and> xs \<noteq> [] \<and> xs ! 0 = x / 2 \<and>
           (Suc k < length xs \<longrightarrow>
              xs ! Suc k = xs ! k - d1L (xs ! k) x b / d2L (xs ! k) x b \<and>
              d2L (xs ! k) x b \<noteq> 0 \<and> tol < d1L (xs ! k) x b \<and> Suc k < max_iter) \<and>
           (d1L (last xs) x b \<le> tol \<or> length xs = max_iter)"
proof -
  from assms(3) have t: "0 \<le> tol" by simp
  from root_newton_char[OF assms(1) t, of b max_iter] obtain xs where
    r: "root_newton x b tol max_iter = Inr xs" "xs \<noteq> []" "xs ! 0 = x / 2"
       "\<forall>k. Suc k < length xs \<longrightarrow> newton_step_ok x b tol max_iter xs k"
       "\<not> (tol < d1L (last xs) x b \<and> length xs < max_iter)"
    by blast
  have len: "length xs \<le> max_iter"
  proof (cases "length xs")
    case 0
    with r(2) show ?thesis by simp
  next
    case (Suc n)
    show ?thesis
    proof (cases n)
      case 0
      with Suc assms(4) show ?thesis by simp
    next
      case (Suc m)
      with \<open>length xs = Suc n\<close> have "Suc m < length xs" by simp
      with r(4) have "newton_step_ok x b tol max_iter xs m" by blast
      then have "Suc m < max_iter" by (simp add: newton_step_ok_def)
      with Suc \<open>length xs = Suc n\<close> show ?thesis by simp
    qed
  qed
  have stop: "d1L (last xs) x b \<le> tol \<or> length xs = max_iter"
    using r(5) len by auto
  have step: "Suc k < length xs \<longrightarrow>
              xs ! Suc k = xs ! k - d1L (xs ! k) x b / d2L (xs ! k) x b \<and>
              d2L (xs ! k) x b \<noteq> 0 \<and> tol < d1L (xs ! k) x b \<and> Suc k < max_iter"
    using r(4) by (auto simp: newton_step_ok_def)
  from r(1,2,3) step stop show ?thesis by blast
qed

text \<open>
  Over the reals \<^verbatim>\<open>root_binary\<close> lists the means \<open>spec_mean x b 0, spec_mean x b 1, \<dots>\<close> of
  the bisection as the specification words it; the loop test held at every element
  before the last, and it fails at the last.
\<close>

lemma exact_binary_trajectory:
  "high_of (binary_init x) = x / 2 \<and> low_of (binary_init x) = 0 \<and>
   spec_bracket x b k = (high_of (binary_after x b k), low_of (binary_after x b k)) \<and>
   root_binary x b tol max_iter \<noteq> [] \<and>
   root_binary x b tol max_iter ! 0 = x / 4 \<and>
   root_binary x b tol max_iter =
     map (spec_mean x b) [0..<length (root_binary x b tol max_iter)] \<and>
   (Suc k < length (root_binary x b tol max_iter) \<longrightarrow>
      \<bar>spec_mean x b k ^ b - x\<bar> > tol \<and> Suc k < max_iter) \<and>
   \<not> (\<bar>last (root_binary x b tol max_iter) ^ b - x\<bar> > tol \<and>
        length (root_binary x b tol max_iter) < max_iter)"
proof -
  from binary_loop_after[of x b tol max_iter] obtain n where
    n: "root_binary x b tol max_iter = x_list_of (binary_after x b n)"
       "length (root_binary x b tol max_iter) = Suc n"
    by blast
  from n(2) have ne: "root_binary x b tol max_iter \<noteq> []" by auto
  have "root_binary x b tol max_iter ! 0 = mean_of (binary_after x b 0)"
    unfolding n(1) by (rule binary_after_nth) simp
  then have first: "root_binary x b tol max_iter ! 0 = x / 4"
    by (simp add: binary_after_0 binary_init_fields)
  from ne first root_binary_spec_means[of x b tol max_iter]
    root_binary_conds[of k x b tol max_iter] after_spec[of x b k]
  show ?thesis by (simp add: binary_init_fields)
qed

text \<open>
  Over the reals every execution of the loop body halves the bracket: after \<open>k\<close>
  executions \<open>high - low = (x/2)/2\<^sup>k\<close>.
\<close>

lemma exact_bracket_halves:
  assumes "0 < x"
  shows "0 \<le> low_of (binary_after x b k) \<and>
         low_of (binary_after x b k) \<le> high_of (binary_after x b k) \<and>
         high_of (binary_after x b k) - low_of (binary_after x b k) = (x / 2) / 2 ^ k"
proof (induction k)
  case 0
  show ?case using assms by (simp add: binary_after_0 binary_init_fields)
next
  case (Suc k)
  then show ?case
    by (simp add: binary_after_Suc binary_body_high binary_body_low field_simps)
qed

section \<open>The functions over Python's numbers: general facts\<close>

lemma and_then_Inr [simp]: "and_then (Inr v) f = f v"
  by (simp add: and_then_def)

lemma and_then_Inl [simp]: "and_then (Inl e) f = Inl e"
  by (simp add: and_then_def)

lemma and_then_eq_Inr:
  "and_then m f = Inr r \<longleftrightarrow> (\<exists>v. m = Inr v \<and> f v = Inr r)"
  by (cases m) simp_all

subsection \<open>\<^verbatim>\<open>root_newton\<close> in an arbitrary arithmetic\<close>

lemma py_newton_cond_True:
  "py_newton_cond A x b tol max_iter (y, ys) = Inr True \<longleftrightarrow>
     (\<exists>d. py_d1L A y x b = Inr d \<and> py_gt A d tol \<and> length ys < max_iter)"
  by (auto simp: and_then_eq_Inr)

lemma py_newton_body_Inr:
  "py_newton_body A x b (y, ys) = Inr (y1, ys1) \<longleftrightarrow>
     (\<exists>d1 d2 q. py_d1L A y x b = Inr d1 \<and> py_d2L A y x b = Inr d2 \<and>
        py_truediv A d1 d2 = Inr q \<and> py_sub A y q = Inr y1 \<and> ys1 = ys @ [y1])"
  by (auto simp: and_then_eq_Inr)

lemma py_newton_loop_cases:
  assumes "py_newton_loop A x b tol max_iter s = Inr r"
  shows "(py_newton_cond A x b tol max_iter s = Inr False \<and> r = s) \<or>
         (\<exists>s'. py_newton_cond A x b tol max_iter s = Inr True \<and>
               py_newton_body A x b s = Inr s' \<and>
               py_newton_loop A x b tol max_iter s' = Inr r)"
  using assms
  by (subst (asm) py_newton_loop.simps) (auto split: sum.splits if_splits)

lemma py_newton_loop_char:
  "py_newton_loop A x b tol max_iter (y, ys) = Inr (y', zs) \<Longrightarrow> ys \<noteq> [] \<Longrightarrow> last ys = y \<Longrightarrow>
     prefix ys zs \<and> last zs = y' \<and>
     (\<forall>k. length ys \<le> Suc k \<and> Suc k < length zs \<longrightarrow> py_newton_step A x b tol max_iter zs k) \<and>
     py_newton_cond A x b tol max_iter (y', zs) = Inr False"
proof (induction A x b tol max_iter "(y, ys)" arbitrary: y ys rule: py_newton_loop.induct)
  case (1 A x b tol max_iter)
  from py_newton_loop_cases[OF "1.prems"(1)] show ?case
  proof (elim disjE conjE exE)
    assume "py_newton_cond A x b tol max_iter (y, ys) = Inr False" "(y', zs) = (y, ys)"
    then show ?thesis using "1.prems" by auto
  next
    fix s'
    assume c: "py_newton_cond A x b tol max_iter (y, ys) = Inr True"
      and bd: "py_newton_body A x b (y, ys) = Inr s'"
      and lp: "py_newton_loop A x b tol max_iter s' = Inr (y', zs)"
    obtain y1 ys1 where s': "s' = (y1, ys1)" by (cases s')
    from bd[unfolded s' py_newton_body_Inr] obtain d1 d2 q where
      b: "py_d1L A y x b = Inr d1" "py_d2L A y x b = Inr d2" "py_truediv A d1 d2 = Inr q"
         "py_sub A y q = Inr y1" "ys1 = ys @ [y1]"
      by blast
    from c[unfolded py_newton_cond_True] b(1) have g: "py_gt A d1 tol" "length ys < max_iter"
      by auto
    have ih: "prefix ys1 zs \<and> last zs = y' \<and>
       (\<forall>k. length ys1 \<le> Suc k \<and> Suc k < length zs \<longrightarrow> py_newton_step A x b tol max_iter zs k) \<and>
       py_newton_cond A x b tol max_iter (y', zs) = Inr False"
      using "1.hyps"[OF c _ bd[unfolded s'] lp[unfolded s']] b(5) by simp
    from ih b(5) obtain ws where zs: "zs = ys @ [y1] @ ws"
      by (auto simp: prefix_def)
    have n0: "0 < length ys" using \<open>ys \<noteq> []\<close> by simp
    have at: "zs ! (length ys - 1) = y" "zs ! length ys = y1"
      using \<open>ys \<noteq> []\<close> \<open>last ys = y\<close> n0
      by (simp_all add: zs nth_append last_conv_nth)
    have first: "py_newton_step A x b tol max_iter zs (length ys - 1)"
      unfolding py_newton_step_def using b g at n0 by auto
    have "\<forall>k. length ys \<le> Suc k \<and> Suc k < length zs \<longrightarrow> py_newton_step A x b tol max_iter zs k"
    proof (intro allI impI)
      fix k assume k: "length ys \<le> Suc k \<and> Suc k < length zs"
      show "py_newton_step A x b tol max_iter zs k"
      proof (cases "Suc k = length ys")
        case True
        then have "k = length ys - 1" by simp
        with first show ?thesis by simp
      next
        case False
        with k b(5) have "length ys1 \<le> Suc k \<and> Suc k < length zs" by simp
        with ih show ?thesis by blast
      qed
    qed
    moreover have "prefix ys zs" by (simp add: zs)
    ultimately show ?thesis using ih by blast
  qed
qed

lemma py_root_newton_raises:
  assumes "py_truediv A x (py_int A 2) = Inr x_k" "py_pow A x_k (b + 1) = Inl e"
  shows "py_root_newton A x b tol max_iter = Inl e"
  using assms by (simp add: py_root_newton_def py_newton_loop.simps py_d1L_def)

lemma py_root_newton_stops_at_start:
  assumes "py_truediv A x (py_int A 2) = Inr x0" "py_d1L A x0 x b = Inr d" "\<not> py_gt A d tol"
  shows "py_root_newton A x b tol max_iter = Inr [x0]"
  using assms by (simp add: py_root_newton_def py_newton_loop.simps)

subsection \<open>\<^verbatim>\<open>root_binary\<close> in an arbitrary arithmetic\<close>

lemma py_binary_cond_eq:
  "py_binary_cond A x b tol max_iter (h, l, m, ys) = Inr c \<longleftrightarrow>
     (\<exists>t. py_binary_test A x b tol m = Inr t \<and> c = (t \<and> length ys < max_iter))"
  by (auto simp: and_then_eq_Inr)

lemma py_binary_body_Inr:
  "py_binary_body A x b (h, l, m, ys) = Inr (h1, l1, m1, ys1) \<longleftrightarrow>
     (\<exists>p. py_midpoint A h l = Inr m1 \<and> py_pow A m1 b = Inr p \<and> ys1 = ys @ [m1] \<and>
          (if py_gt A p x then h1 = m1 \<and> l1 = l else h1 = h \<and> l1 = m1))"
  by (auto simp: and_then_eq_Inr)

lemma py_binary_loop_stop:
  "py_binary_cond A x b tol max_iter s = Inr False \<Longrightarrow>
     py_binary_loop A x b tol max_iter s = Inr s"
  by (subst py_binary_loop.simps) simp

lemma py_binary_loop_step:
  "py_binary_cond A x b tol max_iter s = Inr True \<Longrightarrow> py_binary_body A x b s = Inr s1 \<Longrightarrow>
     py_binary_loop A x b tol max_iter s = py_binary_loop A x b tol max_iter s1"
  by (subst py_binary_loop.simps) simp

lemma py_binary_loop_cases:
  assumes "py_binary_loop A x b tol max_iter s = Inr r"
  shows "(py_binary_cond A x b tol max_iter s = Inr False \<and> r = s) \<or>
         (\<exists>s'. py_binary_cond A x b tol max_iter s = Inr True \<and>
               py_binary_body A x b s = Inr s' \<and>
               py_binary_loop A x b tol max_iter s' = Inr r)"
  using assms
  by (subst (asm) py_binary_loop.simps) (auto split: sum.splits if_splits)

lemma py_binary_loop_char:
  "py_binary_loop A x b tol max_iter (h, l, m, ys) = Inr (h', l', m', zs) \<Longrightarrow>
   ys \<noteq> [] \<Longrightarrow> last ys = m \<Longrightarrow> py_spec_bracket A x b (length ys - 1) = Inr (h, l) \<Longrightarrow>
     prefix ys zs \<and> last zs = m' \<and>
     py_spec_bracket A x b (length zs - 1) = Inr (h', l') \<and>
     (\<forall>k. length ys \<le> k \<and> k < length zs \<longrightarrow> py_spec_mean A x b k = Inr (zs ! k)) \<and>
     (\<forall>k. length ys \<le> Suc k \<and> Suc k < length zs \<longrightarrow>
          py_binary_test A x b tol (zs ! k) = Inr True \<and> Suc k < max_iter) \<and>
     py_binary_cond A x b tol max_iter (h', l', m', zs) = Inr False"
proof (induction A x b tol max_iter "(h, l, m, ys)" arbitrary: h l m ys
       rule: py_binary_loop.induct)
  case (1 A x b tol max_iter)
  from py_binary_loop_cases[OF "1.prems"(1)] show ?case
  proof (elim disjE conjE exE)
    assume "py_binary_cond A x b tol max_iter (h, l, m, ys) = Inr False"
      "(h', l', m', zs) = (h, l, m, ys)"
    then show ?thesis using "1.prems" by auto
  next
    fix s'
    assume c: "py_binary_cond A x b tol max_iter (h, l, m, ys) = Inr True"
      and bd: "py_binary_body A x b (h, l, m, ys) = Inr s'"
      and lp: "py_binary_loop A x b tol max_iter s' = Inr (h', l', m', zs)"
    obtain h1 l1 m1 ys1 where s': "s' = (h1, l1, m1, ys1)" by (cases s')
    from bd[unfolded s' py_binary_body_Inr] obtain p where
      b: "py_midpoint A h l = Inr m1" "py_pow A m1 b = Inr p" "ys1 = ys @ [m1]"
         "if py_gt A p x then h1 = m1 \<and> l1 = l else h1 = h \<and> l1 = m1"
      by blast
    from c[unfolded py_binary_cond_eq] have g: "py_binary_test A x b tol m = Inr True"
      "length ys < max_iter" by auto
    have n0: "0 < length ys" using \<open>ys \<noteq> []\<close> by simp
    then have len: "length ys = Suc (length ys - 1)" by simp
    have br: "py_spec_bracket A x b (length ys) = Inr (h1, l1)"
      by (subst len) (use b "1.prems"(4) in \<open>auto simp: and_then_eq_Inr\<close>)
    have mn: "py_spec_mean A x b (length ys) = Inr m1"
      using b(1) "1.prems"(4) by (simp add: py_spec_mean_def)
    have ih: "prefix ys1 zs \<and> last zs = m' \<and>
       py_spec_bracket A x b (length zs - 1) = Inr (h', l') \<and>
       (\<forall>k. length ys1 \<le> k \<and> k < length zs \<longrightarrow> py_spec_mean A x b k = Inr (zs ! k)) \<and>
       (\<forall>k. length ys1 \<le> Suc k \<and> Suc k < length zs \<longrightarrow>
            py_binary_test A x b tol (zs ! k) = Inr True \<and> Suc k < max_iter) \<and>
       py_binary_cond A x b tol max_iter (h', l', m', zs) = Inr False"
      using "1.hyps"[OF c _ bd[unfolded s'] lp[unfolded s']] b(3) br by simp
    from ih b(3) obtain ws where zs: "zs = ys @ [m1] @ ws"
      by (auto simp: prefix_def)
    have at: "zs ! (length ys - 1) = m" "zs ! length ys = m1"
      using \<open>ys \<noteq> []\<close> \<open>last ys = m\<close> n0
      by (simp_all add: zs nth_append last_conv_nth)
    have means: "\<forall>k. length ys \<le> k \<and> k < length zs \<longrightarrow> py_spec_mean A x b k = Inr (zs ! k)"
    proof (intro allI impI)
      fix k assume k: "length ys \<le> k \<and> k < length zs"
      show "py_spec_mean A x b k = Inr (zs ! k)"
      proof (cases "k = length ys")
        case True
        with mn at(2) show ?thesis by simp
      next
        case False
        with k b(3) have "length ys1 \<le> k \<and> k < length zs" by simp
        with ih show ?thesis by blast
      qed
    qed
    have tests: "\<forall>k. length ys \<le> Suc k \<and> Suc k < length zs \<longrightarrow>
          py_binary_test A x b tol (zs ! k) = Inr True \<and> Suc k < max_iter"
    proof (intro allI impI)
      fix k assume k: "length ys \<le> Suc k \<and> Suc k < length zs"
      show "py_binary_test A x b tol (zs ! k) = Inr True \<and> Suc k < max_iter"
      proof (cases "Suc k = length ys")
        case True
        then have "k = length ys - 1" by simp
        with g at(1) True show ?thesis by simp
      next
        case False
        with k b(3) have "length ys1 \<le> Suc k \<and> Suc k < length zs" by simp
        with ih show ?thesis by blast
      qed
    qed
    have "prefix ys zs" by (simp add: zs)
    with means tests ih show ?thesis by blast
  qed
qed

lemma py_root_binary_raises:
  assumes "py_binary_init A x = Inr (high, low, mean, x_list)" "py_pow A mean b = Inl e"
  shows "py_root_binary A x b tol max_iter = Inl e"
  using assms by (simp add: py_root_binary_def py_binary_loop.simps py_binary_test_def)

lemma py_root_binary_stops_at_start:
  assumes "py_binary_init A x = Inr (high, low, mean, x_list)"
    "py_binary_test A x b tol mean = Inr False"
  shows "py_root_binary A x b tol max_iter = Inr x_list"
  using assms by (simp add: py_root_binary_def py_binary_loop.simps)

text \<open>
  The states of a run of \<^verbatim>\<open>root_binary\<close> are \<open>py_binary_after A x b 0, \<dots>,
  py_binary_after A x b n\<close>, where \<open>n + 1\<close> is the length of the returned trajectory.
\<close>

lemma py_binary_after_length:
  "py_binary_after A x b k = Inr (h, l, m, xs) \<Longrightarrow> length xs = Suc k"
proof (induction k arbitrary: h l m xs)
  case 0
  then show ?case by (auto simp: py_binary_init_def Let_def and_then_eq_Inr)
next
  case (Suc k)
  from Suc.prems obtain s where
    s: "py_binary_after A x b k = Inr s" "py_binary_body A x b s = Inr (h, l, m, xs)"
    by (auto simp: and_then_eq_Inr)
  obtain h0 l0 m0 xs0 where s': "s = (h0, l0, m0, xs0)" by (cases s) auto
  from Suc.IH[OF s(1)[unfolded s']] have "length xs0 = Suc k" .
  with s(2)[unfolded s' py_binary_body_Inr] show ?case by auto
qed

lemma py_binary_loop_after:
  "py_binary_loop A x b tol max_iter s = Inr s' \<Longrightarrow> py_binary_after A x b k = Inr s \<Longrightarrow>
     \<exists>n. py_binary_after A x b (k + n) = Inr s'"
proof (induction A x b tol max_iter s arbitrary: k rule: py_binary_loop.induct)
  case (1 A x b tol max_iter s)
  from py_binary_loop_cases[OF "1.prems"(1)] show ?case
  proof (elim disjE conjE exE)
    assume "s' = s"
    with "1.prems"(2) have "py_binary_after A x b (k + 0) = Inr s'" by simp
    then show ?thesis by blast
  next
    fix s1
    assume c: "py_binary_cond A x b tol max_iter s = Inr True"
      and bd: "py_binary_body A x b s = Inr s1"
      and lp: "py_binary_loop A x b tol max_iter s1 = Inr s'"
    have "py_binary_after A x b (Suc k) = Inr s1"
      using "1.prems"(2) bd by simp
    from "1.IH"[OF c _ bd lp this] obtain n where
      "py_binary_after A x b (Suc k + n) = Inr s'" by auto
    then have "py_binary_after A x b (k + Suc n) = Inr s'" by simp
    then show ?thesis by blast
  qed
qed

lemma py_root_binary_after:
  assumes "py_root_binary A x b tol max_iter = Inr xs"
  shows "\<exists>high low mean. py_binary_after A x b (length xs - 1) = Inr (high, low, mean, xs)"
proof -
  from assms obtain s s' where
    i: "py_binary_init A x = Inr s" and
    lp: "py_binary_loop A x b tol max_iter s = Inr s'" and
    xs: "xs = snd (snd (snd s'))"
    by (auto simp: py_root_binary_def and_then_eq_Inr)
  from py_binary_loop_after[OF lp, of 0] i obtain n where
    n: "py_binary_after A x b n = Inr s'" by auto
  obtain h l m where s': "s' = (h, l, m, xs)" using xs by (cases s') auto
  from py_binary_after_length[OF n[unfolded s']] have "length xs - 1 = n" by simp
  with n s' show ?thesis by auto
qed

lemma py_binary_after_earlier:
  "py_binary_after A x b (k + n) = Inr s \<Longrightarrow> \<exists>s0. py_binary_after A x b k = Inr s0"
proof (induction n arbitrary: s)
  case 0
  then have "py_binary_after A x b k = Inr s" by simp
  then show ?case by (rule exI)
next
  case (Suc n)
  then obtain s1 where "py_binary_after A x b (k + n) = Inr s1"
    by (auto simp: and_then_eq_Inr)
  then show ?case by (rule Suc.IH)
qed

subsection \<open>In exact arithmetic the functions are those of the first section\<close>

lemma exact_arith_fields [simp]:
  "py_int exact_arith = of_int" "py_add exact_arith = (\<lambda>a b. Inr (a + b))"
  "py_sub exact_arith = (\<lambda>a b. Inr (a - b))" "py_mul exact_arith = (\<lambda>a b. Inr (a * b))"
  "py_truediv exact_arith = (\<lambda>a b. if b = 0 then Inl ZeroDivisionError else Inr (a / b))"
  "py_pow exact_arith = (\<lambda>a n. Inr (a ^ n))" "py_abs exact_arith = abs"
  "py_gt exact_arith = (\<lambda>a b. a > b)"
  by (simp_all add: exact_arith_def)

lemma exact_d1L: "py_d1L exact_arith x_k x b = Inr (d1L x_k x b)"
  by (simp add: py_d1L_def d1L_def)

lemma exact_d2L: "py_d2L exact_arith x_k x b = Inr (d2L x_k x b)"
  by (simp add: py_d2L_def d2L_def algebra_simps)

lemma exact_newton_cond:
  "py_newton_cond exact_arith x b tol max_iter s = Inr (newton_cond x b tol max_iter s)"
  by (cases s) (simp add: exact_d1L)

lemma exact_newton_body: "py_newton_body exact_arith x b s = newton_body x b s"
  by (cases s) (simp add: exact_d1L exact_d2L Let_def)

lemma exact_newton_loop:
  "py_newton_loop exact_arith x b tol max_iter s = newton_loop x b tol max_iter s"
proof (induction x b tol max_iter s rule: newton_loop.induct)
  case (1 x b tol max_iter s)
  show ?case
  proof (cases "newton_cond x b tol max_iter s")
    case False
    then show ?thesis
      by (subst py_newton_loop.simps) (simp add: exact_newton_cond newton_loop_stop)
  next
    case True
    show ?thesis
    proof (cases "newton_body x b s")
      case (Inl e)
      with True show ?thesis
        by (subst py_newton_loop.simps)
           (simp add: exact_newton_cond exact_newton_body newton_loop_step)
    next
      case (Inr s')
      with True "1.IH"[OF True Inr] show ?thesis
        by (subst py_newton_loop.simps)
           (simp add: exact_newton_cond exact_newton_body newton_loop_step)
    qed
  qed
qed

lemma exact_root_newton:
  "py_root_newton exact_arith x b tol max_iter = root_newton x b tol max_iter"
  by (cases "newton_loop x b tol max_iter (x / 2, [x / 2])")
     (simp_all add: py_root_newton_def root_newton_def exact_newton_loop Let_def)

lemma exact_midpoint: "py_midpoint exact_arith high low = Inr ((high + low) / 2)"
  by (simp add: py_midpoint_def)

lemma exact_binary_init: "py_binary_init exact_arith x = Inr (binary_init x)"
  by (simp add: py_binary_init_def binary_init_def exact_midpoint Let_def)

lemma exact_binary_cond:
  "py_binary_cond exact_arith x b tol max_iter s = Inr (binary_cond x b tol max_iter s)"
  by (cases s) (simp add: py_binary_test_def)

lemma exact_binary_body: "py_binary_body exact_arith x b s = Inr (binary_body x b s)"
  by (cases s) (simp add: exact_midpoint Let_def)

lemma exact_binary_loop:
  "py_binary_loop exact_arith x b tol max_iter s = Inr (binary_loop x b tol max_iter s)"
proof (induction x b tol max_iter s rule: binary_loop.induct)
  case (1 x b tol max_iter s)
  show ?case
  proof (cases "binary_cond x b tol max_iter s")
    case False
    then show ?thesis
      by (subst py_binary_loop.simps) (simp add: exact_binary_cond binary_loop_stop)
  next
    case True
    with "1.IH"[OF True] show ?thesis
      by (subst py_binary_loop.simps)
         (simp add: exact_binary_cond exact_binary_body binary_loop_step)
  qed
qed

lemma exact_root_binary:
  "py_root_binary exact_arith x b tol max_iter = Inr (root_binary x b tol max_iter)"
  by (simp add: py_root_binary_def root_binary_def exact_binary_init exact_binary_loop)

section \<open>Facts about binary64\<close>

subsection \<open>Rounding\<close>

text \<open>
  Rounding leaves a number with a normalised 53-bit significand unchanged
  (\<open>round64_exact\<close>), in particular a power of two; below \<open>2\<^sup>-\<^sup>1\<^sup>0\<^sup>2\<^sup>2\<close> it rounds to a
  multiple of \<open>2\<^sup>-\<^sup>1\<^sup>0\<^sup>7\<^sup>4\<close>.
\<close>

lemma round_even_of_int: "round_even (of_int m) = m"
  by (simp add: round_even_def)

lemma round_even_bounds: "\<lfloor>y\<rfloor> \<le> round_even y" "round_even y \<le> \<lfloor>y\<rfloor> + 1"
  by (simp_all add: round_even_def Let_def)

lemma round_even_mono:
  assumes "y \<le> z"
  shows "round_even y \<le> round_even z"
proof (cases "\<lfloor>y\<rfloor> = \<lfloor>z\<rfloor>")
  case True
  then show ?thesis using assms by (auto simp: round_even_def Let_def)
next
  case False
  with floor_mono[OF assms] have "\<lfloor>y\<rfloor> < \<lfloor>z\<rfloor>" by linarith
  then have "round_even y \<le> \<lfloor>z\<rfloor>" using round_even_bounds(2)[of y] by linarith
  then show ?thesis using round_even_bounds(1)[of z] by linarith
qed

lemma round_even_le_int: "y \<le> of_int n \<Longrightarrow> round_even y \<le> n"
  using round_even_mono[of y "of_int n"] by (simp add: round_even_of_int)

lemma round_even_ge_int: "of_int n \<le> y \<Longrightarrow> n \<le> round_even y"
  using round_even_mono[of "of_int n" y] by (simp add: round_even_of_int)

lemma round64_exact:
  fixes m e :: int
  assumes "2 ^ 52 \<le> \<bar>m\<bar>" "\<bar>m\<bar> < 2 ^ 53" "- 1074 \<le> e"
  shows "round64 (of_int m * 2 powr of_int e) = of_int m * 2 powr of_int e"
proof -
  define r :: real where "r = of_int m * 2 powr of_int e"
  have m0: "m \<noteq> 0" using assms(1) by auto
  have r0: "r \<noteq> 0" using m0 by (simp add: r_def)
  have am: "(2::real) ^ 52 \<le> \<bar>of_int m\<bar>" "\<bar>of_int m :: real\<bar> < 2 ^ 53"
  proof -
    have "real_of_int (2 ^ 52) \<le> real_of_int \<bar>m\<bar>" using assms(1) by (rule of_int_le_iff[THEN iffD2])
    then show "(2::real) ^ 52 \<le> \<bar>of_int m\<bar>" by simp
    have "real_of_int \<bar>m\<bar> < real_of_int (2 ^ 53)" using assms(2) by (rule of_int_less_iff[THEN iffD2])
    then show "\<bar>of_int m :: real\<bar> < 2 ^ 53" by simp
  qed
  have pos: "0 < \<bar>real_of_int m\<bar>" using m0 by simp
  have lg: "log 2 \<bar>r\<bar> = log 2 \<bar>of_int m\<bar> + of_int e"
    using pos by (simp add: r_def abs_mult log_mult)
  have l1: "52 \<le> log 2 \<bar>real_of_int m\<bar>"
    using am(1) pos by (simp add: le_log_iff)
  have l2: "log 2 \<bar>real_of_int m\<bar> < 53"
    using am(2) pos by (simp add: log_less_iff)
  have fl: "\<lfloor>log 2 \<bar>r\<bar>\<rfloor> = 52 + e"
    unfolding lg using l1 l2 by (intro floor_unique) auto
  have mx: "max \<lfloor>log 2 \<bar>r\<bar>\<rfloor> (- 1022) = 52 + e"
    using assms(3) by (simp add: fl)
  have u: "2 powr (of_int (52 + e) - 52) = (2::real) powr of_int e" by simp
  have q: "r / 2 powr of_int e = of_int m" by (simp add: r_def)
  have "round64 r = r"
    using r0 by (simp add: round64_def mx u q round_even_of_int Let_def) (simp add: r_def)
  then show ?thesis by (simp add: r_def)
qed

lemma round64_pow2: "round64 (2 ^ n) = 2 ^ n"
proof -
  have "round64 (of_int (2 ^ 52) * 2 powr of_int (int n - 52)) =
        of_int (2 ^ 52) * 2 powr of_int (int n - 52)"
    by (rule round64_exact) simp_all
  moreover have "of_int (2 ^ 52) * 2 powr of_int (int n - 52) = (2::real) ^ n"
  proof -
    have "of_int (2 ^ 52) * 2 powr of_int (int n - 52) = (2::real) powr 52 * 2 powr (real n - 52)"
      by simp
    also have "\<dots> = 2 powr real n"
      by (simp add: powr_diff)
    also have "\<dots> = 2 ^ n" by (simp add: powr_realpow)
    finally show ?thesis .
  qed
  ultimately show ?thesis by simp
qed

lemma round64_neg_pow2: "round64 (- (2 ^ n)) = - (2 ^ n)"
proof -
  have "round64 (of_int (- (2 ^ 52)) * 2 powr of_int (int n - 52)) =
        of_int (- (2 ^ 52)) * 2 powr of_int (int n - 52)"
    by (rule round64_exact) simp_all
  moreover have "of_int (- (2 ^ 52)) * 2 powr of_int (int n - 52) = - ((2::real) ^ n)"
  proof -
    have "of_int (- (2 ^ 52)) * 2 powr of_int (int n - 52) =
          - ((2::real) powr 52 * 2 powr (real n - 52))"
      by simp
    also have "(2::real) powr 52 * 2 powr (real n - 52) = 2 powr real n"
      by (simp add: powr_diff)
    also have "\<dots> = 2 ^ n" by (simp add: powr_realpow)
    finally show ?thesis .
  qed
  ultimately show ?thesis by simp
qed

lemma two_powr_neg: "(2::real) powr (- real n) = 1 / 2 ^ n"
  by (simp add: powr_minus powr_realpow divide_inverse)


text \<open>Rounding keeps the sign and is monotone.\<close>

lemma binade_upper:
  assumes "r \<noteq> 0"
  shows "\<bar>r\<bar> < 2 powr (of_int (max \<lfloor>log 2 \<bar>r\<bar>\<rfloor> (- 1022)) + 1)"
proof -
  have "log 2 \<bar>r\<bar> < of_int \<lfloor>log 2 \<bar>r\<bar>\<rfloor> + 1" by linarith
  also have "\<dots> \<le> of_int (max \<lfloor>log 2 \<bar>r\<bar>\<rfloor> (- 1022)) + 1" by simp
  finally show ?thesis using assms by (simp add: log_less_iff)
qed

lemma binade_lower:
  assumes "r \<noteq> 0" "- 1022 < max \<lfloor>log 2 \<bar>r\<bar>\<rfloor> (- 1022)"
  shows "2 powr (of_int (max \<lfloor>log 2 \<bar>r\<bar>\<rfloor> (- 1022))) \<le> \<bar>r\<bar>"
proof -
  from assms(2) have "max \<lfloor>log 2 \<bar>r\<bar>\<rfloor> (- 1022) = \<lfloor>log 2 \<bar>r\<bar>\<rfloor>" by linarith
  moreover have "of_int \<lfloor>log 2 \<bar>r\<bar>\<rfloor> \<le> log 2 \<bar>r\<bar>" by simp
  ultimately show ?thesis using assms(1) by (simp add: powr_le_iff)
qed

lemma round64_nonneg:
  assumes "0 \<le> r"
  shows "0 \<le> round64 r"
proof (cases "r = 0")
  case True
  then show ?thesis by (simp add: round64_def)
next
  case False
  define u :: real where "u = 2 powr (of_int (max \<lfloor>log 2 \<bar>r\<bar>\<rfloor> (- 1022)) - 52)"
  have u: "0 < u" by (simp add: u_def)
  have "of_int 0 \<le> r / u" using assms u by simp
  then have "0 \<le> round_even (r / u)" by (rule round_even_ge_int)
  then have "0 \<le> u * of_int (round_even (r / u))" using u by simp
  then show ?thesis using False by (simp add: round64_def Let_def u_def)
qed

lemma round64_nonpos:
  assumes "r \<le> 0"
  shows "round64 r \<le> 0"
proof (cases "r = 0")
  case True
  then show ?thesis by (simp add: round64_def)
next
  case False
  define u :: real where "u = 2 powr (of_int (max \<lfloor>log 2 \<bar>r\<bar>\<rfloor> (- 1022)) - 52)"
  have u: "0 < u" by (simp add: u_def)
  have "r / u \<le> of_int 0" using assms u by (simp add: divide_nonpos_pos)
  then have "round_even (r / u) \<le> 0" by (rule round_even_le_int)
  then have "u * of_int (round_even (r / u)) \<le> 0" using u by (simp add: mult_le_0_iff)
  then show ?thesis using False by (simp add: round64_def Let_def u_def)
qed

lemma round64_pos_upper:
  assumes "0 < r"
  shows "round64 r \<le> 2 powr (of_int (max \<lfloor>log 2 r\<rfloor> (- 1022)) + 1)"
proof -
  define e where "e = max \<lfloor>log 2 r\<rfloor> (- 1022)"
  define u :: real where "u = 2 powr (of_int e - 52)"
  have u: "0 < u" by (simp add: u_def)
  have "r < 2 powr (of_int e + 1)"
    using binade_upper[of r] assms by (simp add: e_def)
  also have "\<dots> = u * 2 ^ 53"
    by (simp add: u_def powr_diff powr_add)
  finally have "r / u < 2 ^ 53" using u by (simp add: pos_divide_less_eq mult.commute)
  then have "r / u \<le> of_int (2 ^ 53)" by simp
  then have "round_even (r / u) \<le> 2 ^ 53" by (rule round_even_le_int)
  then have "real_of_int (round_even (r / u)) \<le> real_of_int (2 ^ 53)"
    by (rule of_int_le_iff[THEN iffD2])
  then have "u * of_int (round_even (r / u)) \<le> u * 2 ^ 53" using u by simp
  also have "\<dots> = 2 powr (of_int e + 1)"
    by (simp add: u_def powr_diff powr_add)
  finally show ?thesis
    using assms by (simp add: round64_def Let_def u_def e_def)
qed

lemma round64_pos_lower:
  assumes "0 < r" "- 1022 < \<lfloor>log 2 r\<rfloor>"
  shows "2 powr (of_int \<lfloor>log 2 r\<rfloor>) \<le> round64 r"
proof -
  define e where "e = \<lfloor>log 2 r\<rfloor>"
  define u :: real where "u = 2 powr (of_int e - 52)"
  have mx: "max \<lfloor>log 2 r\<rfloor> (- 1022) = e" using assms(2) by (simp add: e_def)
  have u: "0 < u" by (simp add: u_def)
  have "u * 2 ^ 52 = 2 powr (of_int e)"
    by (simp add: u_def powr_diff)
  also have "\<dots> \<le> r"
  proof -
    have "- 1022 < max \<lfloor>log 2 \<bar>r\<bar>\<rfloor> (- 1022)" using assms by simp
    from binade_lower[OF _ this] assms(1) mx show ?thesis by simp
  qed
  finally have "2 ^ 52 \<le> r / u" using u by (simp add: pos_le_divide_eq mult.commute)
  then have "of_int (2 ^ 52) \<le> r / u" by simp
  then have "2 ^ 52 \<le> round_even (r / u)" by (rule round_even_ge_int)
  then have "real_of_int (2 ^ 52) \<le> real_of_int (round_even (r / u))"
    by (rule of_int_le_iff[THEN iffD2])
  then have "u * 2 ^ 52 \<le> u * of_int (round_even (r / u))" using u by simp
  moreover have "u * 2 ^ 52 = 2 powr (of_int e)"
    by (simp add: u_def powr_diff)
  moreover have "round64 r = u * of_int (round_even (r / u))"
    using assms(1) by (simp add: round64_def Let_def u_def mx)
  ultimately have "2 powr (of_int e) \<le> round64 r" by simp
  then show ?thesis by (simp add: e_def)
qed

lemma round64_mono_pos:
  assumes "0 < r" "r \<le> s"
  shows "round64 r \<le> round64 s"
proof -
  define er where "er = max \<lfloor>log 2 r\<rfloor> (- 1022)"
  define es where "es = max \<lfloor>log 2 s\<rfloor> (- 1022)"
  have s: "0 < s" using assms by linarith
  have "log 2 r \<le> log 2 s" using assms by simp
  then have fl: "\<lfloor>log 2 r\<rfloor> \<le> \<lfloor>log 2 s\<rfloor>" by (rule floor_mono)
  then have le: "er \<le> es" by (simp add: er_def es_def)
  show ?thesis
  proof (cases "er = es")
    case True
    define u :: real where "u = 2 powr (of_int es - 52)"
    have u: "0 < u" by (simp add: u_def)
    have "r / u \<le> s / u" using assms(2) u by (simp add: divide_right_mono)
    then have "round_even (r / u) \<le> round_even (s / u)" by (rule round_even_mono)
    then have "u * of_int (round_even (r / u)) \<le> u * of_int (round_even (s / u))"
      using u by simp
    then show ?thesis
      using assms(1) s True by (simp add: round64_def Let_def u_def er_def es_def)
  next
    case False
    with le have lt: "er < es" by simp
    have "- 1022 \<le> er" by (simp add: er_def)
    with lt have big: "- 1022 < es" by linarith
    then have es: "es = \<lfloor>log 2 s\<rfloor>" "- 1022 < \<lfloor>log 2 s\<rfloor>"
      unfolding es_def by linarith+
    have "round64 r \<le> 2 powr (of_int er + 1)"
      using round64_pos_upper[OF assms(1)] by (simp add: er_def)
    also have "\<dots> \<le> 2 powr (of_int es)"
      using lt by simp
    also have "\<dots> \<le> round64 s"
      using round64_pos_lower[OF s es(2)] es(1) by simp
    finally show ?thesis .
  qed
qed

lemma round64_mono_nonneg:
  assumes "0 \<le> r" "r \<le> s"
  shows "round64 r \<le> round64 s"
proof (cases "r = 0")
  case True
  with assms have "0 \<le> round64 s" by (intro round64_nonneg) simp
  with True show ?thesis by (simp add: round64_def)
next
  case False
  with assms show ?thesis by (intro round64_mono_pos) simp_all
qed

text \<open>
  The floats are the numbers \<open>m \<cdot> 2\<^sup>e\<close> with \<open>\<bar>m\<bar> < 2\<^sup>5\<^sup>3\<close> and \<open>e \<ge> -1074\<close>: rounding
  leaves them unchanged, and every rounded number is one of them. Hence rounding twice
  is rounding once, and the double of a float is a float.
\<close>

lemma round64_int_mult:
  fixes m e :: int
  assumes "\<bar>m\<bar> < 2 ^ 53" "- 1074 \<le> e"
  shows "round64 (of_int m * 2 powr of_int e) = of_int m * 2 powr of_int e"
proof (cases "m = 0")
  case True
  then show ?thesis by (simp add: round64_def)
next
  case False
  define r :: real where "r = of_int m * 2 powr of_int e"
  define E where "E = max \<lfloor>log 2 \<bar>r\<bar>\<rfloor> (- 1022)"
  have r0: "r \<noteq> 0" using False by (simp add: r_def)
  have "real_of_int \<bar>m\<bar> < real_of_int (2 ^ 53)"
    using assms(1) by (rule of_int_less_iff[THEN iffD2])
  then have am: "\<bar>real_of_int m\<bar> < 2 ^ 53" by simp
  have "\<bar>r\<bar> = \<bar>real_of_int m\<bar> * 2 powr of_int e"
    by (simp add: r_def abs_mult)
  also have "\<dots> < 2 ^ 53 * 2 powr of_int e"
    using am by simp
  also have "\<dots> = 2 powr (of_int (e + 52) + 1)"
    by (simp add: powr_add)
  finally have "log 2 \<bar>r\<bar> < of_int (e + 52) + 1"
    using r0 by (simp add: log_less_iff)
  then have "\<lfloor>log 2 \<bar>r\<bar>\<rfloor> \<le> e + 52"
    by (simp only: floor_le_iff)
  with assms(2) have le: "E \<le> e + 52" by (simp add: E_def)
  define d where "d = nat (e + 52 - E)"
  have d: "int d = e + 52 - E" using le by (simp add: d_def)
  have ex: "of_int e - (of_int E - 52) = real d"
  proof -
    have "real d = real_of_int (int d)" by simp
    also have "\<dots> = of_int e - (of_int E - 52)" by (simp only: d)
    finally show ?thesis by simp
  qed
  have "2 powr of_int e / 2 powr (of_int E - 52) = (2::real) powr (of_int e - (of_int E - 52))"
    by (simp only: powr_diff)
  also have "\<dots> = 2 powr (real d)"
    by (simp only: ex)
  also have "\<dots> = 2 ^ d"
    by (simp add: powr_realpow)
  finally have q: "2 powr of_int e / 2 powr (of_int E - 52) = (2::real) ^ d" .
  have "r / 2 powr (of_int E - 52) = of_int m * (2 powr of_int e / 2 powr (of_int E - 52))"
    by (simp add: r_def)
  also have "\<dots> = of_int (m * 2 ^ d)"
    by (simp add: q)
  finally have int: "r / 2 powr (of_int E - 52) = of_int (m * 2 ^ d)" .
  have "round64 r = 2 powr (of_int E - 52) * of_int (round_even (r / 2 powr (of_int E - 52)))"
    using r0 by (simp add: round64_def Let_def E_def)
  also have "\<dots> = 2 powr (of_int E - 52) * (r / 2 powr (of_int E - 52))"
    by (simp only: int round_even_of_int)
  also have "\<dots> = r" by simp
  finally show ?thesis by (simp add: r_def)
qed

lemma round64_form:
  "\<exists>m e. round64 r = of_int m * 2 powr of_int e \<and> \<bar>m\<bar> < 2 ^ 53 \<and> - 1074 \<le> (e::int)"
proof (cases "r = 0")
  case True
  have "round64 0 = of_int 0 * 2 powr of_int 0 \<and> \<bar>0::int\<bar> < 2 ^ 53 \<and> - 1074 \<le> (0::int)"
    by (simp add: round64_def)
  with True show ?thesis by blast
next
  case False
  define E where "E = max \<lfloor>log 2 \<bar>r\<bar>\<rfloor> (- 1022)"
  define u :: real where "u = 2 powr (of_int E - 52)"
  define M where "M = round_even (r / u)"
  have u: "0 < u" by (simp add: u_def)
  have E: "- 1022 \<le> E" by (simp add: E_def)
  have rd: "round64 r = u * of_int M"
    using False by (simp add: round64_def Let_def E_def u_def M_def)
  have "\<bar>r\<bar> < 2 powr (of_int E + 1)"
    using binade_upper[OF False] by (simp add: E_def)
  also have "\<dots> = u * 2 ^ 53"
    by (simp add: u_def powr_diff powr_add)
  finally have "\<bar>r\<bar> / u < 2 ^ 53" using u by (simp add: pos_divide_less_eq mult.commute)
  then have "\<bar>r / u\<bar> < 2 ^ 53" using u by simp
  then have "r / u < 2 ^ 53 \<and> - (2 ^ 53) < r / u" by linarith
  then have b: "r / u \<le> of_int (2 ^ 53)" "of_int (- (2 ^ 53)) \<le> r / u" by simp_all
  have M: "M \<le> 2 ^ 53" "- (2 ^ 53) \<le> M"
    unfolding M_def by (rule round_even_le_int[OF b(1)], rule round_even_ge_int[OF b(2)])
  have u2: "u * 2 = 2 powr (of_int (E - 51))"
    by (simp add: u_def powr_diff)
  consider "\<bar>M\<bar> < 2 ^ 53" | "M = 2 ^ 53" | "M = - (2 ^ 53)"
    using M by linarith
  then show ?thesis
  proof cases
    case 1
    have "round64 r = of_int M * 2 powr of_int (E - 52)" by (simp add: rd u_def)
    moreover have "- 1074 \<le> E - 52" using E by simp
    ultimately show ?thesis using 1 by blast
  next
    case 2
    have "round64 r = u * 2 * 2 ^ 52" by (simp add: rd 2)
    also have "\<dots> = of_int (2 ^ 52) * 2 powr of_int (E - 51)" by (simp only: u2) simp
    finally have "round64 r = of_int (2 ^ 52) * 2 powr of_int (E - 51)" .
    moreover have "- 1074 \<le> E - 51" using E by simp
    moreover have "\<bar>2 ^ 52 :: int\<bar> < 2 ^ 53" by simp
    ultimately show ?thesis by blast
  next
    case 3
    have "round64 r = u * 2 * (- (2 ^ 52))" by (simp add: rd 3)
    also have "\<dots> = of_int (- (2 ^ 52)) * 2 powr of_int (E - 51)" by (simp only: u2) simp
    finally have "round64 r = of_int (- (2 ^ 52)) * 2 powr of_int (E - 51)" .
    moreover have "- 1074 \<le> E - 51" using E by simp
    moreover have "\<bar>- (2 ^ 52) :: int\<bar> < 2 ^ 53" by simp
    ultimately show ?thesis by blast
  qed
qed

lemma round64_idem: "round64 (round64 r) = round64 r"
proof -
  from round64_form[of r] obtain m e where
    f: "round64 r = of_int m * 2 powr of_int e" "\<bar>m\<bar> < 2 ^ 53" "- 1074 \<le> (e::int)"
    by blast
  show ?thesis unfolding f(1) by (rule round64_int_mult[OF f(2,3)])
qed

lemma round64_double:
  assumes "round64 r = r"
  shows "round64 (2 * r) = 2 * r"
proof -
  from round64_form[of r] assms obtain m e where
    f: "r = of_int m * 2 powr of_int e" "\<bar>m\<bar> < 2 ^ 53" "- 1074 \<le> (e::int)"
    by auto
  have e: "- 1074 \<le> e + 1" using f(3) by simp
  have "2 * r = of_int m * 2 powr of_int (e + 1)"
    by (simp add: f(1) powr_add)
  then show ?thesis using round64_int_mult[OF f(2) e] by simp
qed

lemma round64_of_int:
  assumes "\<bar>n\<bar> < 2 ^ 53"
  shows "round64 (of_int n) = of_int n"
  using round64_int_mult[OF assms, of 0] by simp

lemma round64_max_float: "round64 max_float = max_float"
proof -
  have "round64 (of_int (2 ^ 53 - 1) * 2 powr of_int 971) = of_int (2 ^ 53 - 1) * 2 powr of_int 971"
    by (rule round64_int_mult) simp_all
  moreover have "of_int (2 ^ 53 - 1) * 2 powr of_int 971 = max_float"
  proof -
    have "(2::real) powr of_int 971 = 2 ^ 971"
      using powr_realpow[of "2::real" 971] by simp
    then show ?thesis by (simp add: max_float_def)
  qed
  ultimately show ?thesis by simp
qed

lemma round64_half_max: "round64 (max_float / 2) = max_float / 2"
proof -
  have a: "round64 (of_int (2 ^ 53 - 1) * 2 powr of_int 970) = of_int (2 ^ 53 - 1) * 2 powr of_int 970"
    by (rule round64_int_mult) simp_all
  have b: "of_int (2 ^ 53 - 1) * 2 powr of_int 970 = max_float / 2"
  proof -
    have "(2::real) powr of_int 970 = 2 ^ 970"
      using powr_realpow[of "2::real" 970] by simp
    then show ?thesis by (simp add: max_float_def)
  qed
  from a show ?thesis by (simp only: b)
qed

subsection \<open>The operations\<close>

lemma max_float_bounds: "(2::real) ^ 1023 \<le> max_float" "max_float < 2 ^ 1024"
  by (simp_all add: max_float_def)

lemma max_float_pos: "0 < max_float"
  using max_float_bounds(1) by (simp add: max_float_def)

lemma fl_pow2_fin:
  assumes "n \<le> 1023"
  shows "fl (2 ^ n) = Fin (2 ^ n)"
proof -
  have "(2::real) ^ n \<le> 2 ^ 1023"
    using assms by (intro power_increasing) auto
  with max_float_bounds(1) have le: "(2::real) ^ n \<le> max_float" by linarith
  have "- max_float \<le> 0" using max_float_bounds(1) by (simp add: max_float_def)
  also have "(0::real) \<le> 2 ^ n" by simp
  finally have ge: "- max_float \<le> 2 ^ n" .
  show ?thesis
    using le ge by (simp add: fl_def round64_pow2 Let_def not_less[symmetric])
qed

lemma fl_neg_pow2_fin:
  assumes "n \<le> 1023"
  shows "fl (- (2 ^ n)) = Fin (- (2 ^ n))"
proof -
  have "(2::real) ^ n \<le> 2 ^ 1023"
    using assms by (intro power_increasing) auto
  with max_float_bounds(1) have le: "(2::real) ^ n \<le> max_float" by linarith
  have "(0::real) < 2 ^ n" by simp
  with le have "\<not> max_float < - (2 ^ n)" "\<not> - (2 ^ n) < - max_float"
    by linarith+
  then show ?thesis
    by (simp add: fl_def round64_neg_pow2 Let_def)
qed

lemma fl_pow2_inf:
  assumes "1024 \<le> n"
  shows "fl (2 ^ n) = PInf"
proof -
  have "(2::real) ^ 1024 \<le> 2 ^ n"
    using assms by (intro power_increasing) auto
  with max_float_bounds(2) have "max_float < 2 ^ n" by linarith
  then show ?thesis
    by (simp add: fl_def round64_pow2 Let_def)
qed

lemma fl_zero: "fl 0 = Fin 0"
  by (simp add: fl_def round64_def max_float_def Let_def)

lemma fl_two: "fl 2 = Fin 2"
  using fl_pow2_fin[of 1] by simp


lemma fl_dyadic:
  fixes m :: int
  assumes "\<bar>m\<bar> < 2 ^ 53" "j \<le> 1074"
  shows "fl (of_int m / 2 ^ j) = Fin (of_int m / 2 ^ j)"
proof -
  have e: "- 1074 \<le> - int j" using assms(2) by simp
  have p: "of_int m * (2::real) powr of_int (- int j) = of_int m / 2 ^ j"
    using two_powr_neg[of j] by simp
  have r: "round64 (of_int m / 2 ^ j) = of_int m / 2 ^ j"
    using round64_int_mult[OF assms(1) e] by (simp only: p)
  have "real_of_int \<bar>m\<bar> < real_of_int (2 ^ 53)"
    using assms(1) by (rule of_int_less_iff[THEN iffD2])
  then have am: "\<bar>real_of_int m\<bar> < 2 ^ 53" by simp
  have "\<bar>real_of_int m / 2 ^ j\<bar> = \<bar>real_of_int m\<bar> / 2 ^ j" by simp
  also have "\<dots> \<le> \<bar>real_of_int m\<bar>"
  proof -
    have "(1::real) \<le> 2 ^ j" by simp
    then have "\<bar>real_of_int m\<bar> * 1 \<le> \<bar>real_of_int m\<bar> * 2 ^ j"
      by (intro mult_left_mono) simp_all
    then show ?thesis by (simp add: field_simps)
  qed
  also have "\<dots> < 2 ^ 53" by (rule am)
  also have "(2::real) ^ 53 \<le> 2 ^ 1023" by (intro power_increasing) simp_all
  also have "\<dots> \<le> max_float" by (rule max_float_bounds(1))
  finally have "\<bar>real_of_int m / 2 ^ j\<bar> < max_float" .
  then have "\<not> max_float < real_of_int m / 2 ^ j" "\<not> real_of_int m / 2 ^ j < - max_float"
    by linarith+
  then show ?thesis by (simp add: fl_def Let_def r)
qed

lemma fl_nonneg:
  assumes "0 \<le> r" "r \<le> max_float"
  shows "fl r = Fin (round64 r)" "0 \<le> round64 r" "round64 r \<le> max_float"
proof -
  show a: "0 \<le> round64 r" using assms(1) by (rule round64_nonneg)
  have "round64 r \<le> round64 max_float" using assms by (rule round64_mono_nonneg)
  then show b: "round64 r \<le> max_float" by (simp add: round64_max_float)
  from a b max_float_pos show "fl r = Fin (round64 r)"
    by (simp add: fl_def Let_def)
qed

lemma fl_Fin: "fl r = Fin a \<Longrightarrow> a = round64 r"
  by (auto simp: fl_def Let_def split: if_splits)

lemma fl_nonneg_cases:
  assumes "0 \<le> r"
  shows "fl r = PInf \<or> fl r = Fin (round64 r)"
proof -
  have "0 \<le> round64 r" using assms by (rule round64_nonneg)
  with max_float_pos have "\<not> round64 r < - max_float" by linarith
  then show ?thesis by (simp add: fl_def Let_def)
qed

lemma fl_nonpos_cases:
  assumes "r \<le> 0"
  shows "fl r = NInf \<or> (fl r = Fin (round64 r) \<and> round64 r \<le> 0)"
proof -
  have le: "round64 r \<le> 0" using assms by (rule round64_nonpos)
  with max_float_pos have "\<not> max_float < round64 r" by linarith
  with le show ?thesis by (simp add: fl_def Let_def)
qed

lemma to_float_PyFloat [simp]: "to_float (PyFloat f) = Inr f"
  by (simp add: to_float_def)

lemma to_float_small_ints:
  "to_float (PyInt 0) = Inr (Fin 0)" "to_float (PyInt 2) = Inr (Fin 2)"
  "int_to_float 2 = Inr 2" "int_to_float 4 = Inr 4"
proof -
  have "fl (2 ^ 1) = Fin (2 ^ 1)" "fl (2 ^ 2) = Fin (2 ^ 2)"
    by (rule fl_pow2_fin, simp)+
  then have f: "fl 2 = Fin 2" "fl 4 = Fin 4" by simp_all
  show "to_float (PyInt 0) = Inr (Fin 0)" "to_float (PyInt 2) = Inr (Fin 2)"
    "int_to_float 2 = Inr 2" "int_to_float 4 = Inr 4"
    using f by (simp_all add: to_float_def int_to_float_def finite_or_overflow_def fl_zero)
qed

lemma int_to_float_small:
  assumes "\<bar>n\<bar> < 2 ^ 53"
  shows "int_to_float n = Inr (of_int n)"
proof -
  have "real_of_int \<bar>n\<bar> < real_of_int (2 ^ 53)"
    using assms by (rule of_int_less_iff[THEN iffD2])
  then have "\<bar>real_of_int n\<bar> < 2 ^ 53" by simp
  also have "(2::real) ^ 53 \<le> 2 ^ 1023" by (intro power_increasing) simp_all
  also have "\<dots> \<le> max_float" by (rule max_float_bounds(1))
  finally have "\<bar>real_of_int n\<bar> < max_float" .
  then have "\<not> max_float < real_of_int n" "\<not> real_of_int n < - max_float" by linarith+
  then show ?thesis
    using round64_of_int[OF assms]
    by (simp add: int_to_float_def fl_def Let_def finite_or_overflow_def)
qed

lemma half_of_pow2:
  assumes "n \<le> 1023"
  shows "num_truediv (PyFloat (Fin (2 ^ Suc n))) (PyInt 2) = Inr (PyFloat (Fin (2 ^ n)))"
  using fl_pow2_fin[OF assms]
  by (simp add: float_op_def to_float_small_ints)

lemma add_int_zero:
  assumes "n \<le> 1023"
  shows "num_add (PyFloat (Fin (2 ^ n))) (PyInt 0) = Inr (PyFloat (Fin (2 ^ n)))"
  using fl_pow2_fin[OF assms]
  by (simp add: float_op_def to_float_small_ints)

lemma square_overflows:
  assumes "512 \<le> n"
  shows "num_pow (PyFloat (Fin (2 ^ n))) 2 = Inl OverflowError"
proof -
  have "fl (2 ^ (n * 2)) = PInf"
    using assms by (intro fl_pow2_inf) simp
  then show ?thesis
    by (simp add: to_float_small_ints float_pow_def finite_or_overflow_def power_mult[symmetric])
qed

lemma fourth_power_overflows:
  assumes "256 \<le> n"
  shows "num_pow (PyFloat (Fin (2 ^ n))) 4 = Inl OverflowError"
proof -
  have "fl (2 ^ (n * 4)) = PInf"
    using assms by (intro fl_pow2_inf) simp
  then show ?thesis
    by (simp add: to_float_small_ints float_pow_def finite_or_overflow_def power_mult[symmetric])
qed

lemma binary64_fields [simp]:
  "py_int binary64 = PyInt" "py_add binary64 = num_add" "py_sub binary64 = num_sub"
  "py_mul binary64 = num_mul" "py_truediv binary64 = num_truediv" "py_pow binary64 = num_pow"
  "py_abs binary64 = num_abs" "py_gt binary64 = num_gt"
  by (simp_all add: binary64_def)

lemma binary64_init_pow2:
  assumes "n \<le> 1022"
  shows "py_binary_init binary64 (PyFloat (Fin (2 ^ Suc (Suc n)))) =
           Inr (PyFloat (Fin (2 ^ Suc n)), PyInt 0, PyFloat (Fin (2 ^ n)), [PyFloat (Fin (2 ^ n))])"
proof -
  have n: "Suc n \<le> 1023" "n \<le> 1023" using assms by simp_all
  show ?thesis
    by (simp only: py_binary_init_def py_midpoint_def binary64_fields half_of_pow2[OF n(1)]
          half_of_pow2[OF n(2)] add_int_zero[OF n(1)] and_then_Inr Let_def)
qed

lemma small_powers:
  "fl 4 = Fin 4" "fl 8 = Fin 8" "fl 16 = Fin 16" "fl 2 = Fin 2"
  "fl (- 4) = Fin (- 4)" "fl (- 8) = Fin (- 8)"
proof -
  have "fl (2 ^ 2) = Fin (2 ^ 2)" "fl (2 ^ 3) = Fin (2 ^ 3)" "fl (2 ^ 4) = Fin (2 ^ 4)"
    "fl (2 ^ 1) = Fin (2 ^ 1)"
    by (rule fl_pow2_fin, simp)+
  then show "fl 4 = Fin 4" "fl 8 = Fin 8" "fl 16 = Fin 16" "fl 2 = Fin 2" by simp_all
  have "fl (- (2 ^ 2)) = Fin (- (2 ^ 2))" "fl (- (2 ^ 3)) = Fin (- (2 ^ 3))"
    by (rule fl_neg_pow2_fin, simp)+
  then show "fl (- 4) = Fin (- 4)" "fl (- 8) = Fin (- 8)" by simp_all
qed

lemma num_pow_float:
  assumes "0 < n" "int n < 2 ^ 53" "num_pow (PyFloat (Fin q)) n = Inr p"
  shows "p = PyFloat (Fin (round64 (q ^ n)))"
proof -
  have "\<bar>int n\<bar> < 2 ^ 53" using assms(2) by simp
  from int_to_float_small[OF this] have w: "int_to_float (int n) = Inr (real n)"
    by simp
  have ex: "nat \<lfloor>real n\<rfloor> = n" by (metis floor_of_nat nat_int)
  have n0: "real n \<noteq> 0" using assms(1) by simp
  from assms(3) have fp: "and_then (float_pow (Fin q) (real n)) (\<lambda>r. Inr (PyFloat r)) = Inr p"
    by (simp add: w)
  then obtain r where r: "float_pow (Fin q) (real n) = Inr r" "p = PyFloat r"
    by (auto simp: and_then_eq_Inr)
  show ?thesis
  proof (cases "q = 0")
    case True
    with r n0 assms(1) show ?thesis by (simp add: float_pow_def round64_def)
  next
    case False
    with r(1) n0 have "and_then (finite_or_overflow (fl (q ^ n))) (\<lambda>a. Inr (Fin a)) = Inr r"
      by (simp add: float_pow_def ex)
    then obtain a where a: "finite_or_overflow (fl (q ^ n)) = Inr a" "r = Fin a"
      by (auto simp: and_then_eq_Inr)
    from a(1) have "fl (q ^ n) = Fin a"
      by (cases "fl (q ^ n)") (simp_all add: finite_or_overflow_def)
    from fl_Fin[OF this] a(2) r(2) show ?thesis by simp
  qed
qed

lemma num_pow_finite:
  assumes "0 \<le> m" "m ^ b \<le> max_float" "int b < 2 ^ 53"
  shows "\<exists>p. num_pow (PyFloat (Fin m)) b = Inr (PyFloat (Fin p))"
proof -
  have "\<bar>int b\<bar> < 2 ^ 53" using assms(3) by simp
  from int_to_float_small[OF this] have w: "int_to_float (int b) = Inr (real b)"
    by simp
  have ex: "nat \<lfloor>real b\<rfloor> = b" by (metis floor_of_nat nat_int)
  have "0 \<le> m ^ b" using assms(1) by simp
  from fl_nonneg(1)[OF this assms(2)] have f: "fl (m ^ b) = Fin (round64 (m ^ b))" .
  show ?thesis
    by (simp add: w float_pow_def ex f finite_or_overflow_def)
qed

subsection \<open>The bracket of the bisection on floats\<close>

text \<open>
  The computed midpoint of two floats \<open>0 \<le> l \<le> h\<close> is a float between them: the sum is
  rounded into \<open>[2 l, 2 h]\<close>, its half into \<open>[l, h]\<close>. So \<open>float_bracket\<close> holds in every
  state of \<^verbatim>\<open>root_binary\<close> when \<open>x\<close> is positive and finite.
\<close>

lemma float_midpoint:
  assumes "round64 h = h" "round64 l = l" "0 \<le> l" "l \<le> h" "2 * h \<le> max_float"
  shows "fl (h + l) = Fin (round64 (h + l))"
    and "fl (round64 (h + l) / 2) = Fin (round64 (round64 (h + l) / 2))"
    and "l \<le> round64 (round64 (h + l) / 2)"
    and "round64 (round64 (h + l) / 2) \<le> h"
proof -
  define s where "s = round64 (h + l)"
  have hl: "0 \<le> h + l" "h + l \<le> max_float" using assms by linarith+
  from fl_nonneg[OF hl] show "fl (h + l) = Fin (round64 (h + l))" by simp
  have "round64 (2 * l) \<le> s" unfolding s_def
    using assms by (intro round64_mono_nonneg) simp_all
  then have lo: "2 * l \<le> s" using round64_double[OF assms(2)] by simp
  have "s \<le> round64 (2 * h)" unfolding s_def
    using assms by (intro round64_mono_nonneg) simp_all
  then have hi: "s \<le> 2 * h" using round64_double[OF assms(1)] by simp
  have s2: "0 \<le> s / 2" "s / 2 \<le> max_float" using lo hi assms by linarith+
  from fl_nonneg(1)[OF s2] show "fl (round64 (h + l) / 2) = Fin (round64 (round64 (h + l) / 2))"
    by (simp add: s_def)
  have "round64 l \<le> round64 (s / 2)"
    using assms(3) lo by (intro round64_mono_nonneg) simp_all
  then show "l \<le> round64 (round64 (h + l) / 2)" by (simp add: assms(2) s_def)
  have "round64 (s / 2) \<le> round64 h"
    using s2(1) hi by (intro round64_mono_nonneg) simp_all
  then show "round64 (round64 (h + l) / 2) \<le> h" by (simp add: assms(1) s_def)
qed

lemma binary64_midpoint:
  assumes "float_bracket high low"
  shows "\<exists>m. py_midpoint binary64 high low = Inr (PyFloat (Fin m)) \<and> round64 m = m \<and>
           num_real low \<le> m \<and> m \<le> num_real high"
proof -
  from assms obtain h where high: "high = PyFloat (Fin h)"
    by (cases "(high, low)" rule: float_bracket.cases) auto
  from assms high consider "low = PyInt 0" | l where "low = PyFloat (Fin l)"
    by (cases "(high, low)" rule: float_bracket.cases) auto
  then show ?thesis
  proof cases
    case 1
    with assms high have a: "round64 h = h" "round64 0 = (0::real)" "(0::real) \<le> 0" "0 \<le> h"
      "2 * h \<le> max_float"
      by (simp_all add: round64_def)
    note m = float_midpoint[OF a]
    have "py_midpoint binary64 high low = Inr (PyFloat (Fin (round64 (round64 (h + 0) / 2))))"
      using m(1,2) by (simp add: py_midpoint_def high 1 float_op_def to_float_small_ints fl_two)
    with m(3,4) high 1 show ?thesis by (simp add: round64_idem)
  next
    case 2
    with assms high have a: "round64 h = h" "round64 l = l" "0 \<le> l" "l \<le> h"
      "2 * h \<le> max_float"
      by simp_all
    note m = float_midpoint[OF a]
    have "py_midpoint binary64 high low = Inr (PyFloat (Fin (round64 (round64 (h + l) / 2))))"
      using m(1,2) by (simp add: py_midpoint_def high 2 float_op_def to_float_small_ints fl_two)
    with m(3,4) high 2 show ?thesis by (simp add: round64_idem)
  qed
qed

lemma float_bracket_real:
  assumes "float_bracket high low"
  shows "num_finite high \<and> num_finite low \<and> 0 \<le> num_real low \<and> num_real low \<le> num_real high"
  using assms by (cases "(high, low)" rule: float_bracket.cases) auto

lemma float_bracket_narrow:
  assumes "float_bracket high low" "round64 m = m" "num_real low \<le> m" "m \<le> num_real high"
  shows "float_bracket (PyFloat (Fin m)) low" "float_bracket high (PyFloat (Fin m))"
  using assms by (cases "(high, low)" rule: float_bracket.cases; auto)+

lemma binary64_body_bracket:
  assumes "py_binary_body binary64 x b (high, low, mean, x_list) = Inr (high', low', mean', x_list')"
    and "float_bracket high low"
  shows "float_bracket high' low' \<and> py_midpoint binary64 high low = Inr mean' \<and>
         num_real low \<le> num_real mean' \<and> num_real mean' \<le> num_real high \<and>
         (high' = mean' \<and> low' = low \<or> high' = high \<and> low' = mean')"
proof -
  from binary64_midpoint[OF assms(2)] obtain m where
    m: "py_midpoint binary64 high low = Inr (PyFloat (Fin m))" "round64 m = m"
       "num_real low \<le> m" "m \<le> num_real high"
    by blast
  from assms(1)[unfolded py_binary_body_Inr] m(1) obtain p where
    b: "mean' = PyFloat (Fin m)"
       "if py_gt binary64 p x then high' = mean' \<and> low' = low else high' = high \<and> low' = mean'"
    by auto
  from b(2) have c: "high' = mean' \<and> low' = low \<or> high' = high \<and> low' = mean'"
    by (auto split: if_splits)
  from c b(1) float_bracket_narrow[OF assms(2) m(2,3,4)] have "float_bracket high' low'"
    by auto
  with m b(1) c show ?thesis by simp
qed

lemma binary64_half:
  assumes "num_finite x" "0 < num_real x" "num_real x \<le> max_float"
  shows "py_truediv binary64 x (py_int binary64 2) = Inr (PyFloat (Fin (round64 (num_real x / 2))))"
    and "0 \<le> round64 (num_real x / 2)" and "2 * round64 (num_real x / 2) \<le> max_float"
proof -
  define r where "r = num_real x"
  have r: "0 \<le> r / 2" "r / 2 \<le> max_float" "r / 2 \<le> max_float / 2"
    using assms max_float_pos by (simp_all add: r_def)
  note f = fl_nonneg[OF r(1,2)]
  show "0 \<le> round64 (num_real x / 2)" using f(2) by (simp add: r_def)
  have "round64 (r / 2) \<le> round64 (max_float / 2)"
    using r(1,3) by (rule round64_mono_nonneg)
  then show "2 * round64 (num_real x / 2) \<le> max_float"
    by (simp add: round64_half_max r_def)
  show "py_truediv binary64 x (py_int binary64 2) = Inr (PyFloat (Fin (round64 (num_real x / 2))))"
  proof (cases x)
    case (PyInt n)
    then show ?thesis using f(1) by (simp add: r_def finite_or_overflow_def)
  next
    case (PyFloat v)
    with assms(1) obtain a where "v = Fin a" by (cases v) auto
    with PyFloat show ?thesis
      using f(1) by (simp add: r_def float_op_def to_float_small_ints fl_two)
  qed
qed



text \<open>
  \<^verbatim>\<open>root_binary\<close> returns on floats when the power of the first upper bound does not
  overflow: every later mean lies below that bound.
\<close>

lemma binary64_sub_input:
  assumes "num_finite x" "0 < num_real x" "num_real x \<le> max_float"
  shows "\<exists>d. num_sub (PyFloat (Fin p)) x = Inr d"
proof (cases x)
  case (PyInt n)
  have "0 \<le> real_of_int n" "real_of_int n \<le> max_float" using assms PyInt by simp_all
  from fl_nonneg(1)[OF this] show ?thesis
    using PyInt by (simp add: float_op_def to_float_def int_to_float_def finite_or_overflow_def)
next
  case (PyFloat v)
  then show ?thesis by (simp add: float_op_def)
qed

lemma binary64_test_returns:
  assumes "num_finite x" "0 < num_real x" "num_real x \<le> max_float"
    and "0 \<le> m" "m ^ b \<le> max_float" "int b < 2 ^ 53"
  shows "\<exists>c. py_binary_test binary64 x b tol (PyFloat (Fin m)) = Inr c"
proof -
  from num_pow_finite[OF assms(4,5,6)] obtain p where
    p: "num_pow (PyFloat (Fin m)) b = Inr (PyFloat (Fin p))" by blast
  from binary64_sub_input[OF assms(1,2,3)] obtain d where
    d: "num_sub (PyFloat (Fin p)) x = Inr d" by blast
  show ?thesis
    unfolding py_binary_test_def binary64_fields p and_then_Inr d by blast
qed

lemma power_le_of_le:
  fixes m h :: real
  assumes "0 \<le> m" "m \<le> h" "h ^ b \<le> c"
  shows "m ^ b \<le> c"
  using power_mono[OF assms(2,1), of b] assms(3) by linarith

lemma binary64_loop_returns:
  "num_finite x \<Longrightarrow> 0 < num_real x \<Longrightarrow> num_real x \<le> max_float \<Longrightarrow>
   h ^ b \<le> max_float \<Longrightarrow> int b < 2 ^ 53 \<Longrightarrow>
   float_bracket high low \<Longrightarrow> num_real high \<le> h \<Longrightarrow> 0 \<le> m \<Longrightarrow> m \<le> h \<Longrightarrow>
     \<exists>s'. py_binary_loop binary64 x b tol max_iter (high, low, PyFloat (Fin m), xs) = Inr s'"
proof (induction binary64 x b tol max_iter "(high, low, PyFloat (Fin m), xs)"
       arbitrary: high low m xs rule: py_binary_loop.induct)
  case (1 x b tol max_iter)
  note x = "1.prems"(1,2,3) and hb = "1.prems"(4) and b = "1.prems"(5)
    and fb = "1.prems"(6) and hh = "1.prems"(7) and m = "1.prems"(8,9)
  have mb: "m ^ b \<le> max_float"
    using m hb by (rule power_le_of_le)
  from binary64_test_returns[OF x m(1) mb b] obtain t where
    t: "py_binary_test binary64 x b tol (PyFloat (Fin m)) = Inr t" by blast
  then have c: "py_binary_cond binary64 x b tol max_iter (high, low, PyFloat (Fin m), xs) =
      Inr (t \<and> length xs < max_iter)"
    by simp
  show ?case
  proof (cases "t \<and> length xs < max_iter")
    case False
    with c have "py_binary_cond binary64 x b tol max_iter (high, low, PyFloat (Fin m), xs) =
      Inr False" by simp
    from py_binary_loop_stop[OF this] show ?thesis by (rule exI)
  next
    case True
    with c have cT: "py_binary_cond binary64 x b tol max_iter (high, low, PyFloat (Fin m), xs) =
      Inr True" by simp
    from binary64_midpoint[OF fb] obtain m1 where
      m1: "py_midpoint binary64 high low = Inr (PyFloat (Fin m1))" "round64 m1 = m1"
          "num_real low \<le> m1" "m1 \<le> num_real high"
      by blast
    from float_bracket_real[OF fb] m1(3) have m1pos: "0 \<le> m1" by linarith
    have m1h: "m1 \<le> h" using m1(4) hh by linarith
    have "m1 ^ b \<le> max_float" using m1pos m1h hb by (rule power_le_of_le)
    from num_pow_finite[OF m1pos this b] obtain p where
      p: "py_pow binary64 (PyFloat (Fin m1)) b = Inr (PyFloat (Fin p))" by auto
    define high1 where "high1 = (if py_gt binary64 (PyFloat (Fin p)) x then PyFloat (Fin m1) else high)"
    define low1 where "low1 = (if py_gt binary64 (PyFloat (Fin p)) x then low else PyFloat (Fin m1))"
    have bd: "py_binary_body binary64 x b (high, low, PyFloat (Fin m), xs) =
        Inr (high1, low1, PyFloat (Fin m1), xs @ [PyFloat (Fin m1)])"
      unfolding py_binary_body.simps m1(1) and_then_Inr p
      by (simp add: high1_def low1_def)
    from binary64_body_bracket[OF bd fb] have fb1: "float_bracket high1 low1" by simp
    have h1: "num_real high1 \<le> h"
      using m1h hh by (simp add: high1_def)
    from "1.hyps"[OF cT _ bd x hb b fb1 h1 m1pos m1h]
    obtain s' where
      "py_binary_loop binary64 x b tol max_iter
         (high1, low1, PyFloat (Fin m1), xs @ [PyFloat (Fin m1)]) = Inr s'"
      by auto
    then have "py_binary_loop binary64 x b tol max_iter (high, low, PyFloat (Fin m), xs) = Inr s'"
      by (simp only: py_binary_loop_step[OF cT bd])
    then show ?thesis by (rule exI)
  qed
qed

lemma binary64_root_binary_returns:
  assumes "num_finite x" "0 < num_real x" "num_real x \<le> max_float"
    and "py_truediv binary64 x (py_int binary64 2) = Inr (PyFloat (Fin h))"
    and "h ^ b \<le> max_float" "int b < 2 ^ 53"
  shows "\<exists>xs. py_root_binary binary64 x b tol max_iter = Inr xs"
proof -
  note hf = binary64_half[OF assms(1,2,3)]
  from hf(1) assms(4) have h: "h = round64 (num_real x / 2)" by simp
  have fb: "float_bracket (PyFloat (Fin h)) (PyInt 0)"
    using hf(2,3) by (simp add: h round64_idem)
  from binary64_midpoint[OF fb] obtain m where
    m: "py_midpoint binary64 (PyFloat (Fin h)) (PyInt 0) = Inr (PyFloat (Fin m))"
       "0 \<le> m" "m \<le> h"
    by auto
  have i: "py_binary_init binary64 x =
      Inr (PyFloat (Fin h), PyInt 0, PyFloat (Fin m), [PyFloat (Fin m)])"
    using assms(4) m(1) by (simp add: py_binary_init_def Let_def)
  have "num_real (PyFloat (Fin h)) \<le> h" by simp
  from binary64_loop_returns[OF assms(1,2,3,5,6) fb this m(2,3), of tol max_iter "[PyFloat (Fin m)]"]
  obtain s' where
    "py_binary_loop binary64 x b tol max_iter
       (PyFloat (Fin h), PyInt 0, PyFloat (Fin m), [PyFloat (Fin m)]) = Inr s'"
    by auto
  then show ?thesis by (simp add: py_root_binary_def i)
qed

subsection \<open>The sign of \<open>d1L\<close> at the starting guess on floats\<close>

text \<open>
  If \<open>q\<^sup>b \<le> x\<close> for the starting guess \<open>q\<close>, then \<open>q\<^bsup>b+1\<^esup> \<le> x q\<close>, and since rounding is
  monotone the computed \<open>d1L\<close>, when its evaluation raises no exception, is a number
  \<open>\<le> 0\<close>, \<open>-inf\<close> or a \<open>nan\<close>: never greater than a tolerance \<open>tol \<ge> 0\<close>.
\<close>

lemma not_gt_nonneg:
  assumes "v = NaN \<or> v = NInf \<or> (\<exists>a. v = Fin a \<and> a \<le> 0)"
    and "num_finite tol" "0 \<le> num_real tol"
  shows "\<not> num_gt (PyFloat v) tol"
proof (cases tol)
  case (PyInt n)
  with assms show ?thesis by auto
next
  case (PyFloat w)
  with assms(2) obtain t where "w = Fin t" by (cases w) auto
  with PyFloat assms show ?thesis by auto
qed

lemma binary64_d1L_start:
  assumes "0 \<le> q" "q ^ b \<le> xr" "int b + 1 < 2 ^ 53"
    and "py_d1L binary64 (PyFloat (Fin q)) (PyFloat (Fin xr)) b = Inr d"
  shows "\<exists>v. d = PyFloat v \<and> (v = NaN \<or> v = NInf \<or> (\<exists>a. v = Fin a \<and> a \<le> 0))"
proof -
  have xr: "0 \<le> xr" using assms(1,2) by (meson order_trans zero_le_power)
  from assms(4) obtain p m s where
    p: "num_pow (PyFloat (Fin q)) (b + 1) = Inr p" and
    m: "num_mul (PyFloat (Fin xr)) (PyFloat (Fin q)) = Inr m" and
    s: "num_sub p m = Inr s" and
    d: "num_mul (PyInt (2 * int b)) s = Inr d"
    by (auto simp: py_d1L_def and_then_eq_Inr)
  have "int (b + 1) < 2 ^ 53" using assms(3) by simp
  from num_pow_float[OF _ this p] have pr: "p = PyFloat (Fin (round64 (q ^ (b + 1))))"
    by simp
  have m': "m = PyFloat (fl (xr * q))"
    using m by (simp add: float_op_def)
  have "q * q ^ b \<le> q * xr"
    using assms(1,2) by (rule mult_left_mono[rotated])
  then have le: "q ^ (b + 1) \<le> xr * q"
    by (simp add: mult.commute)
  have pos: "0 \<le> q ^ (b + 1)" using assms(1) by simp
  have "\<exists>v. s = PyFloat v \<and> (v = NInf \<or> (\<exists>a. v = Fin a \<and> a \<le> 0))"
  proof -
    from xr assms(1) have "0 \<le> xr * q" by simp
    from fl_nonneg_cases[OF this] show ?thesis
    proof
      assume "fl (xr * q) = PInf"
      with s pr m' show ?thesis by (auto simp: float_op_def fsub_def)
    next
      assume f: "fl (xr * q) = Fin (round64 (xr * q))"
      have "round64 (q ^ (b + 1)) \<le> round64 (xr * q)"
        using pos le by (rule round64_mono_nonneg)
      then have "round64 (q ^ (b + 1)) - round64 (xr * q) \<le> 0" by simp
      from fl_nonpos_cases[OF this] s pr m' f show ?thesis
        by (auto simp: float_op_def fsub_def)
    qed
  qed
  then obtain v where v: "s = PyFloat v" "v = NInf \<or> (\<exists>a. v = Fin a \<and> a \<le> 0)" by blast
  from d v(1) obtain c where
    c: "int_to_float (2 * int b) = Inr c" "d = PyFloat (fmul (Fin c) v)"
    by (auto simp: float_op_def to_float_def and_then_eq_Inr)
  from c(1) have "fl (of_int (2 * int b)) = Fin c"
    by (cases "fl (of_int (2 * int b))") (simp_all add: int_to_float_def finite_or_overflow_def)
  then have "c = round64 (of_int (2 * int b))" by (rule fl_Fin)
  moreover have "0 \<le> round64 (of_int (2 * int b))"
    by (rule round64_nonneg) simp
  ultimately have c0: "0 \<le> c" by simp
  from v(2) show ?thesis
  proof
    assume "v = NInf"
    with c(2) c0 show ?thesis by (auto simp: inf_of_sign_def)
  next
    assume "\<exists>a. v = Fin a \<and> a \<le> 0"
    then obtain a where a: "v = Fin a" "a \<le> 0" by blast
    with c0 have "c * a \<le> 0" by (simp add: mult_nonneg_nonpos)
    from fl_nonpos_cases[OF this] c(2) a(1) show ?thesis by auto
  qed
qed

lemma binary64_no_iteration:
  assumes "py_truediv binary64 (PyFloat (Fin xr)) (py_int binary64 2) = Inr (PyFloat (Fin q))"
    and "py_d1L binary64 (PyFloat (Fin q)) (PyFloat (Fin xr)) b = Inr d"
    and "0 \<le> q" "q ^ b \<le> xr" "int b + 1 < 2 ^ 53" "num_finite tol" "0 \<le> num_real tol"
  shows "py_root_newton binary64 (PyFloat (Fin xr)) b tol max_iter = Inr [PyFloat (Fin q)]"
proof -
  from binary64_d1L_start[OF assms(3,4,5,2)] obtain v where
    v: "d = PyFloat v" "v = NaN \<or> v = NInf \<or> (\<exists>a. v = Fin a \<and> a \<le> 0)" by blast
  from not_gt_nonneg[OF v(2) assms(6,7)] v(1) have "\<not> py_gt binary64 d tol" by simp
  from py_root_newton_stops_at_start[OF assms(1,2) this] show ?thesis .
qed

subsection \<open>Runs on Python's floats\<close>

text \<open>
  \<^verbatim>\<open>root_newton(4.0, 1, 2.0**-56)\<close>, the first loop test of \<^verbatim>\<open>root_newton(3.0, 2)\<close>,
  \<^verbatim>\<open>root_newton(12.0, 2, 2.0**-56, 2)\<close>, \<^verbatim>\<open>root_binary(16.0, 2, 2.0**-53)\<close>,
  \<^verbatim>\<open>root_binary(144.0, 2, 1.0, 4)\<close> and the first iteration of
  \<^verbatim>\<open>root_binary(2.0**-1073, 2, 2.0**-1074)\<close>, whose input is twice the smallest positive
  float. All the values they compute but the last midpoint are floats, so that no
  operation rounds.
\<close>

lemma binary64_newton_4_1:
  "py_truediv binary64 (PyFloat (Fin 4)) (py_int binary64 2) = Inr (PyFloat (Fin 2))"
  "py_d1L binary64 (PyFloat (Fin 2)) (PyFloat (Fin 4)) 1 = Inr (PyFloat (Fin (- 8)))"
  "\<not> py_gt binary64 (PyFloat (Fin (- 8))) (PyFloat (Fin (1 / 2 ^ 56)))"
  using small_powers
  by (simp_all add: py_d1L_def float_op_def to_float_small_ints float_pow_def
        finite_or_overflow_def fsub_def)

lemma binary64_root_newton_4_1:
  "py_root_newton binary64 (PyFloat (Fin 4)) 1 (PyFloat (Fin (1 / 2 ^ 56))) 2000 =
     Inr [PyFloat (Fin 2)]"
  by (rule py_root_newton_stops_at_start[OF binary64_newton_4_1])

lemma binary64_newton_3_2:
  "py_truediv binary64 (PyFloat (Fin 3)) (py_int binary64 2) = Inr (PyFloat (Fin (3 / 2)))"
  "py_d1L binary64 (PyFloat (Fin (3 / 2))) (PyFloat (Fin 3)) 2 = Inr (PyFloat (Fin (- (9 / 2))))"
proof -
  have v: "fl (3 / 2) = Fin (3 / 2)" "fl (27 / 8) = Fin (27 / 8)" "fl (9 / 2) = Fin (9 / 2)"
    "fl (- (9 / 8)) = Fin (- (9 / 8))" "fl (- (9 / 2)) = Fin (- (9 / 2))" "fl 3 = Fin 3"
    "fl 4 = Fin 4" "fl 2 = Fin 2"
    using fl_dyadic[of 3 1] fl_dyadic[of 27 3] fl_dyadic[of 9 1] fl_dyadic[of "- 9" 3]
      fl_dyadic[of "- 9" 1] fl_dyadic[of 3 0] fl_dyadic[of 4 0] fl_dyadic[of 2 0]
    by simp_all
  show "py_truediv binary64 (PyFloat (Fin 3)) (py_int binary64 2) = Inr (PyFloat (Fin (3 / 2)))"
    "py_d1L binary64 (PyFloat (Fin (3 / 2))) (PyFloat (Fin 3)) 2 = Inr (PyFloat (Fin (- (9 / 2))))"
    using v
    by (simp_all add: py_d1L_def float_op_def to_float_def int_to_float_def
          float_pow_def finite_or_overflow_def fsub_def power_divide)
qed

lemma newton_12_2_values:
  "fl 3 = Fin 3" "fl 12 = Fin 12" "fl 36 = Fin 36" "fl 54 = Fin 54" "fl 72 = Fin 72"
  "fl 96 = Fin 96" "fl 108 = Fin 108" "fl 144 = Fin 144" "fl 216 = Fin 216"
  "fl 384 = Fin 384" "fl 576 = Fin 576" "fl 6 = Fin 6"
  "fl (3 / 2) = Fin (3 / 2)" "fl (9 / 2) = Fin (9 / 2)" "fl (729 / 8) = Fin (729 / 8)"
  "fl (297 / 8) = Fin (297 / 8)" "fl (297 / 2) = Fin (297 / 2)"
  using fl_dyadic[of 3 0] fl_dyadic[of 12 0] fl_dyadic[of 36 0] fl_dyadic[of 54 0]
    fl_dyadic[of 72 0] fl_dyadic[of 96 0] fl_dyadic[of 108 0] fl_dyadic[of 144 0]
    fl_dyadic[of 216 0] fl_dyadic[of 384 0] fl_dyadic[of 576 0] fl_dyadic[of 6 0]
    fl_dyadic[of 3 1] fl_dyadic[of 9 1] fl_dyadic[of 729 3] fl_dyadic[of 297 3]
    fl_dyadic[of 297 1]
  by simp_all

lemma binary64_newton_12_2:
  "py_truediv binary64 (PyFloat (Fin 12)) (py_int binary64 2) = Inr (PyFloat (Fin 6))"
  "py_d1L binary64 (PyFloat (Fin 6)) (PyFloat (Fin 12)) 2 = Inr (PyFloat (Fin 576))"
  "py_d2L binary64 (PyFloat (Fin 6)) (PyFloat (Fin 12)) 2 = Inr (PyFloat (Fin 384))"
  "py_truediv binary64 (PyFloat (Fin 576)) (PyFloat (Fin 384)) = Inr (PyFloat (Fin (3 / 2)))"
  "py_sub binary64 (PyFloat (Fin 6)) (PyFloat (Fin (3 / 2))) = Inr (PyFloat (Fin (9 / 2)))"
  "py_d1L binary64 (PyFloat (Fin (9 / 2))) (PyFloat (Fin 12)) 2 = Inr (PyFloat (Fin (297 / 2)))"
  using newton_12_2_values small_powers
  by (simp_all add: py_d1L_def py_d2L_def float_op_def to_float_def int_to_float_def
        float_pow_def finite_or_overflow_def fsub_def power_divide)

lemma binary64_root_newton_12_2:
  "py_root_newton binary64 (PyFloat (Fin 12)) 2 (PyFloat (Fin (1 / 2 ^ 56))) 2 =
     Inr [PyFloat (Fin 6), PyFloat (Fin (9 / 2))]"
  using binary64_newton_12_2
  by (simp add: py_root_newton_def py_newton_loop.simps)

lemma binary64_binary_16_2:
  "py_binary_init binary64 (PyFloat (Fin 16)) =
     Inr (PyFloat (Fin 8), PyInt 0, PyFloat (Fin 4), [PyFloat (Fin 4)])"
  "py_binary_test binary64 (PyFloat (Fin 16)) 2 (PyFloat (Fin (1 / 2 ^ 53))) (PyFloat (Fin 4))
     = Inr False"
  "py_binary_body binary64 (PyFloat (Fin 16)) 2
     (PyFloat (Fin 8), PyInt 0, PyFloat (Fin 4), [PyFloat (Fin 4)]) =
   Inr (PyFloat (Fin 8), PyFloat (Fin 4), PyFloat (Fin 4), [PyFloat (Fin 4), PyFloat (Fin 4)])"
  using small_powers fl_zero
  by (simp_all add: py_binary_init_def py_midpoint_def py_binary_test_def float_op_def
        to_float_small_ints float_pow_def finite_or_overflow_def fsub_def Let_def)

lemma binary64_root_binary_16_2:
  "py_root_binary binary64 (PyFloat (Fin 16)) 2 (PyFloat (Fin (1 / 2 ^ 53))) 2000 =
     Inr [PyFloat (Fin 4)]"
  by (rule py_root_binary_stops_at_start[OF binary64_binary_16_2(1,2)])

lemma binary_144_2_values:
  "fl 9 = Fin 9" "fl 18 = Fin 18" "fl 36 = Fin 36" "fl 72 = Fin 72" "fl 81 = Fin 81"
  "fl 324 = Fin 324" "fl 1296 = Fin 1296" "fl 1152 = Fin 1152" "fl 180 = Fin 180"
  "fl (- 63) = Fin (- 63)" "fl 2 = Fin 2"
  using fl_dyadic[of 9 0] fl_dyadic[of 18 0] fl_dyadic[of 36 0] fl_dyadic[of 72 0]
    fl_dyadic[of 81 0] fl_dyadic[of 324 0] fl_dyadic[of 1296 0] fl_dyadic[of 1152 0]
    fl_dyadic[of 180 0] fl_dyadic[of "- 63" 0] fl_dyadic[of 2 0]
  by simp_all

lemma binary64_binary_144_2:
  "py_truediv binary64 (PyFloat (Fin 144)) (py_int binary64 2) = Inr (PyFloat (Fin 72))"
  "py_binary_init binary64 (PyFloat (Fin 144)) =
     Inr (PyFloat (Fin 72), PyInt 0, PyFloat (Fin 36), [PyFloat (Fin 36)])"
  "py_binary_test binary64 (PyFloat (Fin 144)) 2 (PyFloat (Fin 1)) (PyFloat (Fin 36)) = Inr True"
  "py_binary_test binary64 (PyFloat (Fin 144)) 2 (PyFloat (Fin 1)) (PyFloat (Fin 18)) = Inr True"
  "py_binary_test binary64 (PyFloat (Fin 144)) 2 (PyFloat (Fin 1)) (PyFloat (Fin 9)) = Inr True"
  "py_binary_body binary64 (PyFloat (Fin 144)) 2
     (PyFloat (Fin 72), PyInt 0, PyFloat (Fin 36), [PyFloat (Fin 36)]) =
   Inr (PyFloat (Fin 36), PyInt 0, PyFloat (Fin 36), [PyFloat (Fin 36), PyFloat (Fin 36)])"
  "py_binary_body binary64 (PyFloat (Fin 144)) 2
     (PyFloat (Fin 36), PyInt 0, PyFloat (Fin 36), [PyFloat (Fin 36), PyFloat (Fin 36)]) =
   Inr (PyFloat (Fin 18), PyInt 0, PyFloat (Fin 18),
        [PyFloat (Fin 36), PyFloat (Fin 36), PyFloat (Fin 18)])"
  "py_binary_body binary64 (PyFloat (Fin 144)) 2
     (PyFloat (Fin 18), PyInt 0, PyFloat (Fin 18),
        [PyFloat (Fin 36), PyFloat (Fin 36), PyFloat (Fin 18)]) =
   Inr (PyFloat (Fin 18), PyFloat (Fin 9), PyFloat (Fin 9),
        [PyFloat (Fin 36), PyFloat (Fin 36), PyFloat (Fin 18), PyFloat (Fin 9)])"
  using binary_144_2_values fl_zero
  by (simp_all add: py_binary_init_def py_midpoint_def py_binary_test_def float_op_def
        to_float_def int_to_float_def float_pow_def finite_or_overflow_def fsub_def Let_def)

lemma binary64_root_binary_144_2:
  "py_root_binary binary64 (PyFloat (Fin 144)) 2 (PyFloat (Fin 1)) 4 =
     Inr [PyFloat (Fin 36), PyFloat (Fin 36), PyFloat (Fin 18), PyFloat (Fin 9)]"
proof -
  have c1: "py_binary_cond binary64 (PyFloat (Fin 144)) 2 (PyFloat (Fin 1)) 4
      (PyFloat (Fin 72), PyInt 0, PyFloat (Fin 36), [PyFloat (Fin 36)]) = Inr True"
    and c2: "py_binary_cond binary64 (PyFloat (Fin 144)) 2 (PyFloat (Fin 1)) 4
      (PyFloat (Fin 36), PyInt 0, PyFloat (Fin 36), [PyFloat (Fin 36), PyFloat (Fin 36)]) = Inr True"
    and c3: "py_binary_cond binary64 (PyFloat (Fin 144)) 2 (PyFloat (Fin 1)) 4
      (PyFloat (Fin 18), PyInt 0, PyFloat (Fin 18),
        [PyFloat (Fin 36), PyFloat (Fin 36), PyFloat (Fin 18)]) = Inr True"
    and c4: "py_binary_cond binary64 (PyFloat (Fin 144)) 2 (PyFloat (Fin 1)) 4
      (PyFloat (Fin 18), PyFloat (Fin 9), PyFloat (Fin 9),
        [PyFloat (Fin 36), PyFloat (Fin 36), PyFloat (Fin 18), PyFloat (Fin 9)]) = Inr False"
    by (simp_all add: binary64_binary_144_2(3,4,5))
  show ?thesis
    unfolding py_root_binary_def binary64_binary_144_2(2) and_then_Inr
      py_binary_loop_step[OF c1 binary64_binary_144_2(6)]
      py_binary_loop_step[OF c2 binary64_binary_144_2(7)]
      py_binary_loop_step[OF c3 binary64_binary_144_2(8)]
      py_binary_loop_stop[OF c4]
    by simp
qed





section \<open>The Newton trajectory (claim C1)\<close>

text \<open>
  Claim C1 says that for every \<open>x > 0\<close>, \<open>b \<ge> 1\<close>, \<open>tol > 0\<close> and \<open>max_iter \<ge> 1\<close>,
  \<^verbatim>\<open>root_newton\<close> returns its trajectory. On Python's floats it does not:
  \<^verbatim>\<open>root_newton(2.0**700, 3, 2.0**-56, 2000)\<close> raises \<^verbatim>\<open>OverflowError\<close>, in the first
  evaluation of the loop test, at \<^verbatim>\<open>x_k**(b+1)\<close> with \<open>x_k = 2\<^sup>6\<^sup>9\<^sup>9\<close>.
\<close>

theorem root_newton_overflows:
  "(0::real) < 2 ^ 700 \<and> (1::nat) \<le> 3 \<and> (0::real) < 1 / 2 ^ 56 \<and> (1::nat) \<le> 2000 \<and>
   py_root_newton binary64 (PyFloat (Fin (2 ^ 700))) 3 (PyFloat (Fin (1 / 2 ^ 56))) 2000
     = Inl OverflowError"
proof -
  have h: "py_truediv binary64 (PyFloat (Fin (2 ^ Suc 699))) (py_int binary64 2) =
              Inr (PyFloat (Fin (2 ^ 699)))"
    unfolding binary64_fields by (rule half_of_pow2) simp
  have e: "(3::nat) + 1 = 4" by simp
  have p: "py_pow binary64 (PyFloat (Fin (2 ^ 699))) (3 + 1) = Inl OverflowError"
    unfolding e binary64_fields by (rule fourth_power_overflows) simp
  have "py_root_newton binary64 (PyFloat (Fin (2 ^ Suc 699))) 3 (PyFloat (Fin (1 / 2 ^ 56))) 2000
     = Inl OverflowError"
    by (rule py_root_newton_raises[OF h p])
  then show ?thesis by simp
qed

text \<open>
  Claim C1, amended. Whenever \<^verbatim>\<open>root_newton\<close> returns, in whatever arithmetic, the
  returned list \<open>xs\<close> is the full trajectory: it is not empty, its first element is the
  computed \<open>x/2\<close>; each element \<open>xs ! (k+1)\<close> is the computed
  \<open>x\<^sub>k - d1L(x\<^sub>k, x, b)/d2L(x\<^sub>k, x, b)\<close> for \<open>x\<^sub>k = xs ! k\<close>, the loop test having held there
  (\<open>d1L(x\<^sub>k, x, b) > tol\<close> and the length \<open>k + 1\<close> below \<open>max_iter\<close>); and at the last
  element \<open>d1L\<close> evaluates without an exception and the test fails: \<open>d1L(last, x, b) > tol\<close>
  is false or the length has reached \<open>max_iter\<close>.
\<close>

theorem py_root_newton_trajectory:
  assumes "py_root_newton A x b tol max_iter = Inr xs"
  shows "xs \<noteq> [] \<and> py_truediv A x (py_int A 2) = Inr (xs ! 0) \<and>
     (Suc k < length xs \<longrightarrow>
        (\<exists>d1 d2 q. py_d1L A (xs ! k) x b = Inr d1 \<and> py_gt A d1 tol \<and> Suc k < max_iter \<and>
           py_d2L A (xs ! k) x b = Inr d2 \<and> py_truediv A d1 d2 = Inr q \<and>
           py_sub A (xs ! k) q = Inr (xs ! Suc k))) \<and>
     (\<exists>d. py_d1L A (last xs) x b = Inr d \<and> (\<not> py_gt A d tol \<or> max_iter \<le> length xs))"
proof -
  from assms obtain x0 y' where
    x0: "py_truediv A x (py_int A 2) = Inr x0" and
    lp: "py_newton_loop A x b tol max_iter (x0, [x0]) = Inr (y', xs)"
    by (auto simp: py_root_newton_def and_then_eq_Inr)
  from py_newton_loop_char[OF lp] have
    c: "prefix [x0] xs" "last xs = y'"
       "\<forall>k. length [x0] \<le> Suc k \<and> Suc k < length xs \<longrightarrow> py_newton_step A x b tol max_iter xs k"
       "py_newton_cond A x b tol max_iter (y', xs) = Inr False"
    by simp_all
  from c(1) have ne: "xs \<noteq> []" and first: "xs ! 0 = x0"
    by (auto simp: prefix_def)
  have step: "Suc k < length xs \<longrightarrow>
        (\<exists>d1 d2 q. py_d1L A (xs ! k) x b = Inr d1 \<and> py_gt A d1 tol \<and> Suc k < max_iter \<and>
           py_d2L A (xs ! k) x b = Inr d2 \<and> py_truediv A d1 d2 = Inr q \<and>
           py_sub A (xs ! k) q = Inr (xs ! Suc k))"
    using c(3) by (auto simp: py_newton_step_def)
  from c(4) have "\<exists>d. py_d1L A y' x b = Inr d \<and> (\<not> py_gt A d tol \<or> max_iter \<le> length xs)"
    by (auto simp: and_then_eq_Inr)
  with c(2) have stop: "\<exists>d. py_d1L A (last xs) x b = Inr d \<and>
      (\<not> py_gt A d tol \<or> max_iter \<le> length xs)" by simp
  from ne first x0 step stop show ?thesis by simp
qed

theorem py_root_newton_trajectory_witness:
  "py_root_newton binary64 (PyFloat (Fin 12)) 2 (PyFloat (Fin (1 / 2 ^ 56))) 2 =
     Inr [PyFloat (Fin 6), PyFloat (Fin (9 / 2))] \<and>
   py_truediv binary64 (PyFloat (Fin 12)) (py_int binary64 2) = Inr (PyFloat (Fin 6)) \<and>
   Suc 0 < length [PyFloat (Fin 6), PyFloat (Fin (9 / 2))] \<and>
   py_d1L binary64 (PyFloat (Fin 6)) (PyFloat (Fin 12)) 2 = Inr (PyFloat (Fin 576)) \<and>
   py_gt binary64 (PyFloat (Fin 576)) (PyFloat (Fin (1 / 2 ^ 56))) \<and> Suc 0 < (2::nat) \<and>
   py_d2L binary64 (PyFloat (Fin 6)) (PyFloat (Fin 12)) 2 = Inr (PyFloat (Fin 384)) \<and>
   py_truediv binary64 (PyFloat (Fin 576)) (PyFloat (Fin 384)) = Inr (PyFloat (Fin (3 / 2))) \<and>
   py_sub binary64 (PyFloat (Fin 6)) (PyFloat (Fin (3 / 2))) = Inr (PyFloat (Fin (9 / 2))) \<and>
   py_d1L binary64 (PyFloat (Fin (9 / 2))) (PyFloat (Fin 12)) 2 = Inr (PyFloat (Fin (297 / 2))) \<and>
   (2::nat) \<le> length [PyFloat (Fin 6), PyFloat (Fin (9 / 2))] \<and>
   py_root_newton exact_arith 144 2 1 3 = Inr [72, 5184 / 107, 1934917632 / 58681261] \<and>
   py_truediv exact_arith 144 (py_int exact_arith 2) = Inr 72"
proof -
  have e: "py_root_newton exact_arith 144 2 1 3 = Inr [72, 5184 / 107, 1934917632 / 58681261]"
    unfolding exact_root_newton
    by (simp add: root_newton_def newton_loop.simps d1L_def d2L_def Let_def power_divide)
  show ?thesis
    using e binary64_root_newton_12_2 binary64_newton_12_2
      py_root_newton_trajectory[OF binary64_root_newton_12_2, where k = 0]
      py_root_newton_trajectory[OF e, where k = 0]
    by simp
qed

section \<open>The bisection trajectory (claim C2)\<close>

text \<open>
  Claim C2 says that for every \<open>x > 0\<close>, \<open>b \<ge> 1\<close>, \<open>tol > 0\<close> and \<open>max_iter \<ge> 1\<close>,
  \<^verbatim>\<open>root_binary\<close> returns its trajectory. On Python's floats it does not:
  \<^verbatim>\<open>root_binary(2.0**700, 2, 2.0**-53, 2000)\<close> raises \<^verbatim>\<open>OverflowError\<close>, in the first
  evaluation of the loop test, at \<^verbatim>\<open>mean**b\<close> with \<open>mean = 2\<^sup>6\<^sup>9\<^sup>8\<close>.
\<close>

theorem root_binary_overflows:
  "(0::real) < 2 ^ 700 \<and> (1::nat) \<le> 2 \<and> (0::real) < 1 / 2 ^ 53 \<and> (1::nat) \<le> 2000 \<and>
   py_root_binary binary64 (PyFloat (Fin (2 ^ 700))) 2 (PyFloat (Fin (1 / 2 ^ 53))) 2000
     = Inl OverflowError"
proof -
  have i: "py_binary_init binary64 (PyFloat (Fin (2 ^ Suc (Suc 698)))) =
       Inr (PyFloat (Fin (2 ^ Suc 698)), PyInt 0, PyFloat (Fin (2 ^ 698)), [PyFloat (Fin (2 ^ 698))])"
    by (rule binary64_init_pow2) simp
  have p: "py_pow binary64 (PyFloat (Fin (2 ^ 698))) 2 = Inl OverflowError"
    unfolding binary64_fields by (rule square_overflows) simp
  have "py_root_binary binary64 (PyFloat (Fin (2 ^ Suc (Suc 698)))) 2 (PyFloat (Fin (1 / 2 ^ 53))) 2000
     = Inl OverflowError"
    by (rule py_root_binary_raises[OF i p])
  then show ?thesis by simp
qed

text \<open>
  Claim C2, amended. Whenever \<^verbatim>\<open>root_binary\<close> returns, in whatever arithmetic, the
  returned list \<open>xs\<close> is the trajectory of the bisection the claim describes
  (\<open>py_spec_bracket\<close>, \<open>py_spec_mean\<close>: start from \<open>high = x/2\<close>, \<open>low = 0\<close>; each iteration
  computes \<open>mean = (high + low)/2\<close> from the current bounds and sets \<open>high = mean\<close> if
  \<open>mean\<^sup>b > x\<close>, \<open>low = mean\<close> otherwise): it is not empty, its \<open>k\<close>-th element is the \<open>k\<close>-th
  computed mean, the first being the computed \<open>(x/2 + 0)/2\<close>; the loop test
  \<open>\<bar>mean\<^sup>b - x\<bar> > tol\<close> held at every element before the last, with the length still
  below \<open>max_iter\<close>; and at the last element the test evaluates without an exception
  and fails, or the length has reached \<open>max_iter\<close>. On Python's floats \<^verbatim>\<open>root_binary\<close>
  does return for every finite \<open>x > 0\<close> such that \<open>h\<^sup>b\<close> does not exceed the largest float,
  \<open>h\<close> being the computed \<open>x/2\<close> (and \<open>b < 2\<^sup>5\<^sup>3\<close>), whatever \<open>tol\<close> and \<open>max_iter\<close>.
\<close>

theorem py_root_binary_trajectory:
  "(py_root_binary A x b tol max_iter = Inr xs \<longrightarrow>
      xs \<noteq> [] \<and>
      (k < length xs \<longrightarrow> py_spec_mean A x b k = Inr (xs ! k)) \<and>
      (Suc k < length xs \<longrightarrow> py_binary_test A x b tol (xs ! k) = Inr True \<and> Suc k < max_iter) \<and>
      (\<exists>c. py_binary_test A x b tol (last xs) = Inr c \<and> \<not> (c \<and> length xs < max_iter))) \<and>
   (num_finite y \<and> 0 < num_real y \<and> num_real y \<le> max_float \<and>
    py_truediv binary64 y (py_int binary64 2) = Inr (PyFloat (Fin h)) \<and>
    h ^ b \<le> max_float \<and> int b < 2 ^ 53 \<longrightarrow>
      (\<exists>ys. py_root_binary binary64 y b t n = Inr ys))"
proof -
  have gen: "py_root_binary A x b tol max_iter = Inr xs \<longrightarrow>
      xs \<noteq> [] \<and>
      (k < length xs \<longrightarrow> py_spec_mean A x b k = Inr (xs ! k)) \<and>
      (Suc k < length xs \<longrightarrow> py_binary_test A x b tol (xs ! k) = Inr True \<and> Suc k < max_iter) \<and>
      (\<exists>c. py_binary_test A x b tol (last xs) = Inr c \<and> \<not> (c \<and> length xs < max_iter))"
  proof
    assume r: "py_root_binary A x b tol max_iter = Inr xs"
    then obtain s h' l' m' where
      i: "py_binary_init A x = Inr s" and
      lp: "py_binary_loop A x b tol max_iter s = Inr (h', l', m', xs)"
      by (auto simp: py_root_binary_def and_then_eq_Inr)
    from i obtain h m where
      s: "s = (h, py_int A 0, m, [m])" and
      h: "py_truediv A x (py_int A 2) = Inr h" and
      m: "py_midpoint A h (py_int A 0) = Inr m"
      by (auto simp: py_binary_init_def and_then_eq_Inr Let_def)
    have b0: "py_spec_bracket A x b (length [m] - 1) = Inr (h, py_int A 0)"
      using h by simp
    from py_binary_loop_char[OF lp[unfolded s] _ _ b0] have
      c: "prefix [m] xs" "last xs = m'"
         "\<forall>k. length [m] \<le> k \<and> k < length xs \<longrightarrow> py_spec_mean A x b k = Inr (xs ! k)"
         "\<forall>k. length [m] \<le> Suc k \<and> Suc k < length xs \<longrightarrow>
              py_binary_test A x b tol (xs ! k) = Inr True \<and> Suc k < max_iter"
         "py_binary_cond A x b tol max_iter (h', l', m', xs) = Inr False"
      by simp_all
    from c(1) have ne: "xs \<noteq> []" and first: "xs ! 0 = m"
      by (auto simp: prefix_def)
    have m0: "py_spec_mean A x b 0 = Inr (xs ! 0)"
      using h m first by (simp add: py_spec_mean_def)
    have means: "k < length xs \<longrightarrow> py_spec_mean A x b k = Inr (xs ! k)"
    proof (cases k)
      case 0
      with m0 show ?thesis by simp
    next
      case (Suc j)
      with c(3) show ?thesis by simp
    qed
    have tests: "Suc k < length xs \<longrightarrow>
        py_binary_test A x b tol (xs ! k) = Inr True \<and> Suc k < max_iter"
      using c(4) by simp
    from c(5)[unfolded py_binary_cond_eq] c(2) have
      "\<exists>c. py_binary_test A x b tol (last xs) = Inr c \<and> \<not> (c \<and> length xs < max_iter)"
      by auto
    with ne means tests show "xs \<noteq> [] \<and>
      (k < length xs \<longrightarrow> py_spec_mean A x b k = Inr (xs ! k)) \<and>
      (Suc k < length xs \<longrightarrow> py_binary_test A x b tol (xs ! k) = Inr True \<and> Suc k < max_iter) \<and>
      (\<exists>c. py_binary_test A x b tol (last xs) = Inr c \<and> \<not> (c \<and> length xs < max_iter))"
      by blast
  qed
  have ret: "num_finite y \<and> 0 < num_real y \<and> num_real y \<le> max_float \<and>
    py_truediv binary64 y (py_int binary64 2) = Inr (PyFloat (Fin h)) \<and>
    h ^ b \<le> max_float \<and> int b < 2 ^ 53 \<longrightarrow>
      (\<exists>ys. py_root_binary binary64 y b t n = Inr ys)"
    using binary64_root_binary_returns[of y h b t n] by blast
  from gen ret show ?thesis by (rule conjI)
qed

theorem py_root_binary_trajectory_witness:
  "py_root_binary binary64 (PyFloat (Fin 144)) 2 (PyFloat (Fin 1)) 4 =
     Inr [PyFloat (Fin 36), PyFloat (Fin 36), PyFloat (Fin 18), PyFloat (Fin 9)] \<and>
   (2::nat) < length [PyFloat (Fin 36), PyFloat (Fin 36), PyFloat (Fin 18), PyFloat (Fin 9)] \<and>
   py_spec_mean binary64 (PyFloat (Fin 144)) 2 2 = Inr (PyFloat (Fin 18)) \<and>
   py_binary_test binary64 (PyFloat (Fin 144)) 2 (PyFloat (Fin 1)) (PyFloat (Fin 18)) = Inr True \<and>
   Suc 2 < (4::nat) \<and>
   py_binary_test binary64 (PyFloat (Fin 144)) 2 (PyFloat (Fin 1)) (PyFloat (Fin 9)) = Inr True \<and>
   num_finite (PyFloat (Fin 144)) \<and> 0 < num_real (PyFloat (Fin 144)) \<and>
   num_real (PyFloat (Fin 144)) \<le> max_float \<and>
   py_truediv binary64 (PyFloat (Fin 144)) (py_int binary64 2) = Inr (PyFloat (Fin 72)) \<and>
   (72::real) ^ 2 \<le> max_float \<and> int 2 < 2 ^ 53 \<and>
   py_root_binary exact_arith 144 2 1 4 = Inr [36, 36, 18, 9] \<and>
   py_spec_mean exact_arith 144 2 2 = Inr 18"
proof -
  have "(144::real) \<le> 2 ^ 1023" "(72::real) ^ 2 \<le> 2 ^ 1023" by simp_all
  with max_float_bounds(1) have mf: "(144::real) \<le> max_float" "(72::real) ^ 2 \<le> max_float"
    by linarith+
  have e: "py_root_binary exact_arith 144 2 1 4 = Inr [36, 36, 18, 9]"
    unfolding exact_root_binary
    by (simp add: root_binary_def binary_init_def binary_loop.simps Let_def power_divide)
  show ?thesis
    using mf e binary64_root_binary_144_2 binary64_binary_144_2(1,4,5)
      py_root_binary_trajectory[where A = binary64 and x = "PyFloat (Fin 144)" and b = 2
        and tol = "PyFloat (Fin 1)" and max_iter = 4 and k = 2
        and xs = "[PyFloat (Fin 36), PyFloat (Fin 36), PyFloat (Fin 18), PyFloat (Fin 9)]"
        and y = "PyFloat (Fin 144)" and h = 72 and t = "PyFloat (Fin 1)" and n = 4]
      py_root_binary_trajectory[where A = exact_arith and x = 144 and b = 2 and tol = 1
        and max_iter = 4 and k = 2 and xs = "[36, 36, 18, 9]"
        and y = "PyFloat (Fin 144)" and h = 72 and t = "PyFloat (Fin 1)" and n = 4]
    by simp
qed

section \<open>The derivatives of the cost function (claim C3)\<close>

lemma L_has_derivative:
  "((\<lambda>y. L y x b) has_real_derivative 2 * (y ^ b - x) * (real b * y ^ (b - 1))) (at y)"
  unfolding L_def by (auto intro!: derivative_eq_intros)

lemma d1L_has_derivative_d2L:
  "((\<lambda>y. d1L y x b) has_real_derivative d2L y x b) (at y)"
proof -
  have p: "((\<lambda>y. y ^ Suc b) has_real_derivative real (Suc b) * y ^ b) (at y)"
    using DERIV_pow[of "Suc b" y] by simp
  have "((\<lambda>y. 2 * real b * (y ^ Suc b - x * y)) has_real_derivative
          2 * real b * (real (Suc b) * y ^ b - x)) (at y)"
    by (rule DERIV_cong, (rule derivative_intros p)+) simp
  then show ?thesis
    by (simp add: d1L_def d2L_def)
qed

lemma d1L_is_derivative_for_square:
  "((\<lambda>y. L y x 2) has_real_derivative d1L y x 2) (at y)"
proof -
  have "2 * (y ^ 2 - x) * (real 2 * y ^ (2 - 1)) = d1L y x 2"
    by (simp add: d1L_def power2_eq_square power3_eq_cube algebra_simps)
  with L_has_derivative[of x 2 y] show ?thesis by (rule DERIV_cong)
qed

text \<open>
  Claim C3 says that \<open>d1L\<close> is the first and \<open>d2L\<close> the second derivative of the squared
  loss \<open>L(x\<^sub>k) = (x\<^sub>k\<^sup>b - x)\<^sup>2\<close> for every \<open>b \<ge> 1\<close>, as the notebook announces. The code does
  not compute them unless \<open>b = 2\<close>: the derivative of \<open>L\<close> is \<open>2 b x\<^sub>k\<^bsup>b-1\<^esup> (x\<^sub>k\<^sup>b - x)\<close>.
  At the first candidate of \<^verbatim>\<open>root_newton(8, 3)\<close>, \<open>x\<^sub>k = 4\<close>: the loss has derivative
  \<open>5376\<close> and second derivative \<open>7296\<close>, while \<open>d1L\<close> is \<open>1344\<close> and \<open>d2L\<close> is \<open>1488\<close>.
  (\<open>d2L\<close> is the derivative of \<open>d1L\<close> for every \<open>b\<close>, and \<open>d1L\<close> is the derivative of \<open>L\<close>
  for \<open>b = 2\<close>: the two lemmas above.)
\<close>

theorem d1L_d2L_not_derivatives:
  "(\<forall>y. ((\<lambda>y. L y 8 3) has_real_derivative 6 * y ^ 2 * (y ^ 3 - 8)) (at y)) \<and>
   6 * 4 ^ 2 * (4 ^ 3 - 8) = (5376::real) \<and>
   d1L 4 8 3 = 1344 \<and>
   \<not> ((\<lambda>y. L y 8 3) has_real_derivative d1L 4 8 3) (at 4) \<and>
   ((\<lambda>y. 6 * y ^ 2 * (y ^ 3 - 8)) has_real_derivative 7296) (at (4::real)) \<and>
   d2L 4 8 3 = 1488"
proof -
  have d: "((\<lambda>y. L y 8 3) has_real_derivative 6 * y ^ 2 * (y ^ 3 - 8)) (at y)" for y
  proof -
    have "2 * (y ^ 3 - 8) * (real 3 * y ^ (3 - 1)) = 6 * y ^ 2 * (y ^ 3 - 8)"
      by simp
    with L_has_derivative[of 8 3 y] show ?thesis by (rule DERIV_cong)
  qed
  have v1: "d1L 4 8 3 = 1344" by (simp add: d1L_def)
  have v2: "d2L 4 8 3 = 1488" by (simp add: d2L_def)
  have no: "\<not> ((\<lambda>y. L y 8 3) has_real_derivative d1L 4 8 3) (at 4)"
  proof
    assume "((\<lambda>y. L y 8 3) has_real_derivative d1L 4 8 3) (at 4)"
    from DERIV_unique[OF this d[of 4]] show False
      by (simp add: v1)
  qed
  have d2: "((\<lambda>y. 6 * y ^ 2 * (y ^ 3 - 8)) has_real_derivative 7296) (at (4::real))"
    by (auto intro!: derivative_eq_intros)
  from d v1 v2 no d2 show ?thesis by simp
qed

section \<open>The exponent \<open>b = 1\<close> (claim C4)\<close>





section \<open>The initial bracket and the root (claim C5)\<close>

lemma root_le_half_iff:
  assumes "1 \<le> b" "0 < x"
  shows "root b x \<le> x / 2 \<longleftrightarrow> x \<le> (x / 2) ^ b"
proof -
  have b: "0 < b" using assms(1) by simp
  have r: "root b ((x / 2) ^ b) = x / 2"
    using b assms(2) by (simp add: real_root_power_cancel)
  have "root b x \<le> x / 2 \<longleftrightarrow> root b x \<le> root b ((x / 2) ^ b)"
    unfolding r ..
  also have "\<dots> \<longleftrightarrow> x \<le> (x / 2) ^ b"
    using b by (rule real_root_le_iff)
  finally show ?thesis .
qed

lemma four_le_half_pow:
  fixes x :: real
  assumes "2 \<le> b" "4 \<le> x"
  shows "x \<le> (x / 2) ^ b"
proof -
  have "x * 4 \<le> x * x" using assms(2) by (intro mult_left_mono) auto
  then have "x \<le> (x / 2) ^ 2" by (simp add: power2_eq_square)
  also have "\<dots> \<le> (x / 2) ^ b"
    using assms by (intro power_increasing) auto
  finally show ?thesis .
qed

text \<open>
  Claim C5 says that for every real \<open>x \<ge> 1\<close> and integer \<open>b \<ge> 2\<close> the \<open>b\<close>-th root of \<open>x\<close>
  lies in the initial bracket \<open>[0, x/2]\<close> of \<^verbatim>\<open>root_binary\<close>. It fails at \<open>x = 1\<close>, \<open>b = 2\<close>:
  the root is \<open>1\<close> and the bracket is \<open>[0, 1/2]\<close>.
\<close>

theorem initial_bracket_misses_root:
  "(1::real) \<le> 1 \<and> (2::nat) \<le> 2 \<and>
   \<not> (low_of (binary_init 1) \<le> root 2 1 \<and> root 2 1 \<le> high_of (binary_init 1))"
  by (simp add: binary_init_fields)

text \<open>
  Claim C5, amended. For \<open>b \<ge> 2\<close> and \<open>x \<ge> 1\<close> the root lies in the initial bracket
  exactly when \<open>x \<ge> 2\<^bsup>b/(b-1)\<^esup>\<close>; this is the case for every \<open>x \<ge> 4\<close>.
\<close>

theorem initial_bracket_has_root:
  assumes "2 \<le> b" "1 \<le> x"
  shows "((low_of (binary_init x) \<le> root b x \<and> root b x \<le> high_of (binary_init x)) \<longleftrightarrow>
            2 powr (real b / (real b - 1)) \<le> x) \<and>
         (4 \<le> x \<longrightarrow>
            low_of (binary_init x) \<le> root b x \<and> root b x \<le> high_of (binary_init x))"
proof -
  have b: "1 \<le> b" "0 < b" and x: "0 < x" using assms by simp_all
  have lo: "low_of (binary_init x) \<le> root b x"
    using b(2) x by (simp add: binary_init_fields)
  have hi: "root b x \<le> high_of (binary_init x) \<longleftrightarrow> x \<le> (x / 2) ^ b"
    using root_le_half_iff[OF b(1) x] by (simp add: binary_init_fields)
  have "x \<le> (x / 2) ^ b \<longleftrightarrow> 2 powr (real b / (real b - 1)) \<le> x"
  proof
    assume "2 powr (real b / (real b - 1)) \<le> x"
    then show "x \<le> (x / 2) ^ b" using half_pow_ge[OF assms(1) x] by simp
  next
    assume ge: "x \<le> (x / 2) ^ b"
    show "2 powr (real b / (real b - 1)) \<le> x"
    proof (rule ccontr)
      assume "\<not> 2 powr (real b / (real b - 1)) \<le> x"
      then have lt: "x < 2 powr (real b / (real b - 1))" by simp
      have b1: "0 < b - 1" using assms(1) by simp
      have "x ^ (b - 1) < (2 powr (real b / (real b - 1))) ^ (b - 1)"
        using lt x b1 by (intro power_strict_mono) auto
      moreover have "(2 powr (real b / (real b - 1))) ^ (b - 1) =
          2 powr (real b / (real b - 1) * real (b - 1))"
        by (simp add: powr_powr powr_realpow[symmetric])
      moreover have "real b / (real b - 1) * real (b - 1) = real b"
        using assms(1) by (simp add: of_nat_diff)
      moreover have "(2::real) powr real b = 2 ^ b"
        by (simp add: powr_realpow)
      ultimately have "x ^ (b - 1) < 2 ^ b" by simp
      then have "x ^ (b - 1) * x < 2 ^ b * x"
        using x by (simp add: mult_strict_right_mono)
      moreover have "x ^ b = x ^ (b - 1) * x"
        using assms(1) by (cases b) auto
      ultimately have "x ^ b < 2 ^ b * x" by simp
      then have "(x / 2) ^ b < x"
        by (simp add: power_divide divide_less_eq mult.commute)
      with ge show False by simp
    qed
  qed
  with lo hi four_le_half_pow[OF assms(1)] show ?thesis by blast
qed

theorem initial_bracket_has_root_witness:
  "(2::nat) \<le> 2 \<and> (1::real) \<le> 4 \<and> (4::real) \<le> 4 \<and>
   2 powr (real 2 / (real 2 - 1)) \<le> (4::real) \<and>
   low_of (binary_init 4) \<le> root 2 4 \<and> root 2 4 \<le> high_of (binary_init 4)"
proof -
  have h: "(2::nat) \<le> 2" "(1::real) \<le> 4" by simp_all
  show ?thesis
    using initial_bracket_has_root[OF h] by simp
qed

section \<open>The validation run \<open>x = 144\<close>, \<open>b = 2\<close> (claim C6)\<close>

lemma d1L_144: "d1L y 144 2 = 4 * y * (y * y - 144)"
  by (simp add: d1L_def power3_eq_cube algebra_simps)

lemma d2L_144: "d2L y 144 2 = 4 * (3 * (y * y) - 144)"
  by (simp add: d2L_def power2_eq_square algebra_simps)

lemma sq_ge_144:
  fixes y u :: real
  assumes "12 \<le> y" "12 \<le> u"
  shows "144 \<le> u * y"
proof -
  have "12 * 12 \<le> u * y" using assms by (intro mult_mono) auto
  then show ?thesis by simp
qed

lemma frac_le_cross:
  fixes a b c d :: real
  assumes "0 < c" "0 < d" "a * d \<le> b * c"
  shows "a / c \<le> b / d"
  using assms by (simp add: field_simps)

lemma newton_update_144:
  assumes "12 \<le> y"
  shows "y - d1L y 144 2 / d2L y 144 2 = 2 * (y * y * y) / (3 * (y * y) - 144)"
proof -
  have "144 \<le> y * y" using assms by (rule sq_ge_144[OF assms])
  then have nz: "3 * (y * y) - 144 \<noteq> 0" by simp
  have "d1L y 144 2 / d2L y 144 2 =
          (4 * (y * (y * y - 144))) / (4 * (3 * (y * y) - 144))"
    by (simp only: d1L_144 d2L_144 mult.assoc)
  also have "\<dots> = y * (y * y - 144) / (3 * (y * y) - 144)"
    by (rule mult_divide_mult_cancel_left) simp
  finally have "d1L y 144 2 / d2L y 144 2 = y * (y * y - 144) / (3 * (y * y) - 144)" .
  also have "y - \<dots> = (y * (3 * (y * y) - 144) - y * (y * y - 144)) / (3 * (y * y) - 144)"
    using nz by (simp add: diff_divide_distrib)
  also have "y * (3 * (y * y) - 144) - y * (y * y - 144) = 2 * (y * y * y)"
    by (simp add: algebra_simps)
  finally show ?thesis .
qed

lemma newton_update_144_mono:
  assumes "12 \<le> y" "y \<le> u"
  shows "y - d1L y 144 2 / d2L y 144 2 \<le> u - d1L u 144 2 / d2L u 144 2"
proof -
  have u: "12 \<le> u" using assms by simp
  have yy: "144 \<le> y * y" by (rule sq_ge_144[OF assms(1) assms(1)])
  have uu: "144 \<le> u * u" by (rule sq_ge_144[OF u u])
  have uy: "144 \<le> u * y" by (rule sq_ge_144[OF assms(1) u])
  have py: "0 < 3 * (y * y) - 144" and pu: "0 < 3 * (u * u) - 144"
    using yy uu by simp_all
  have a: "0 \<le> (u * u) * (y * y - 144)"
    using yy u by (intro mult_nonneg_nonneg) auto
  have b: "0 \<le> (y * y) * (u * u - 144)"
    using uu assms(1) by (intro mult_nonneg_nonneg) auto
  have c: "0 \<le> (u * y) * (u * y - 144)"
    using uy assms(1) u by (intro mult_nonneg_nonneg) auto
  have "0 \<le> (u * u) * (y * y - 144) + (y * y) * (u * u - 144) + (u * y) * (u * y - 144)"
    using a b c by simp
  also have "\<dots> = 3 * (u * u * (y * y)) - 144 * (u * u + u * y + y * y)"
    by (simp add: algebra_simps)
  finally have "0 \<le> (u - y) * (3 * (u * u * (y * y)) - 144 * (u * u + u * y + y * y))"
    using assms(2) by (intro mult_nonneg_nonneg) auto
  also have "\<dots> = (u * u * u) * (3 * (y * y) - 144) - (y * y * y) * (3 * (u * u) - 144)"
    by (simp add: algebra_simps)
  finally have "(y * y * y) * (3 * (u * u) - 144) \<le> (u * u * u) * (3 * (y * y) - 144)"
    by simp
  then have "(y * y * y) / (3 * (y * y) - 144) \<le> (u * u * u) / (3 * (u * u) - 144)"
    by (rule frac_le_cross[OF py pu])
  then show ?thesis
    by (simp add: newton_update_144[OF assms(1)] newton_update_144[OF u])
qed

lemma d1L_144_mono:
  assumes "12 \<le> y" "y \<le> u"
  shows "d1L y 144 2 \<le> d1L u 144 2"
proof -
  have u: "12 \<le> u" using assms by simp
  have yy: "144 \<le> y * y" by (rule sq_ge_144[OF assms(1) assms(1)])
  have "y * y \<le> u * u" using assms by (intro mult_mono) auto
  then have "y * (y * y - 144) \<le> u * (u * u - 144)"
    using assms yy by (intro mult_mono) auto
  then show ?thesis by (simp add: d1L_144)
qed

lemma newton_chain_link:
  assumes steps: "\<forall>k. Suc k < length xs \<longrightarrow> newton_step_ok 144 2 tol max_iter xs k"
    and stop: "\<not> (tol < d1L (last xs) 144 2 \<and> length xs < max_iter)"
    and here: "k < length xs \<and> lo \<le> xs ! k \<and> xs ! k \<le> hi"
    and k': "k' = Suc k" "k' < max_iter"
    and lo: "12 \<le> lo" "tol < d1L lo 144 2"
    and lo': "lo' \<le> lo - d1L lo 144 2 / d2L lo 144 2"
    and hi': "hi - d1L hi 144 2 / d2L hi 144 2 \<le> hi'"
  shows "k' < length xs \<and> lo' \<le> xs ! k' \<and> xs ! k' \<le> hi'"
proof -
  from here lo(1) have y: "12 \<le> xs ! k" "lo \<le> xs ! k" "xs ! k \<le> hi" "k < length xs"
    by simp_all
  have d: "tol < d1L (xs ! k) 144 2"
    using d1L_144_mono[OF lo(1) y(2)] lo(2) by simp
  have more: "Suc k < length xs"
  proof (rule ccontr)
    assume "\<not> Suc k < length xs"
    with y(4) have len: "length xs = Suc k" by simp
    then have "xs \<noteq> []" by auto
    then have "last xs = xs ! k" using len by (simp add: last_conv_nth)
    with d len k' stop show False by simp
  qed
  with steps have "newton_step_ok 144 2 tol max_iter xs k" by blast
  then have eq: "xs ! Suc k = xs ! k - d1L (xs ! k) 144 2 / d2L (xs ! k) 144 2"
    by (simp add: newton_step_ok_def)
  have "lo' \<le> xs ! Suc k"
    using newton_update_144_mono[OF lo(1) y(2)] lo' unfolding eq by simp
  moreover have "xs ! Suc k \<le> hi'"
    using newton_update_144_mono[OF y(1) y(3)] hi' unfolding eq by simp
  ultimately show ?thesis using more k'(1) by simp
qed

lemma newton_144_run:
  assumes r: "root_newton 144 2 (1 / 10 ^ 9) 2000 = Inr xs"
  shows "length xs = 11 \<and> 12 \<le> last xs \<and> last xs \<le> 12 + 1 / 10 ^ 20"
proof -
  from root_newton_char[of 144 "1 / 10 ^ 9" 2 2000] r have
    ne: "xs \<noteq> []" and x0: "xs ! 0 = 72" and
    steps: "\<forall>k. Suc k < length xs \<longrightarrow> newton_step_ok 144 2 (1 / 10 ^ 9) 2000 xs k" and
    stop: "\<not> (1 / 10 ^ 9 < d1L (last xs) 144 2 \<and> length xs < 2000)"
    by auto
  note link = newton_chain_link[OF steps stop]
  have c0: "0 < length xs \<and> 72 \<le> xs ! 0 \<and> xs ! 0 \<le> 72"
    using ne x0 by simp
  have c1: "1 < length xs \<and> 242 / 5 \<le> xs ! 1 \<and> xs ! 1 \<le> 97 / 2"
    by (rule link[OF c0]) (simp_all add: d1L_def d2L_def power_divide)
  have c2: "2 < length xs \<and> 329 / 10 \<le> xs ! 2 \<and> xs ! 2 \<le> 331 / 10"
    by (rule link[OF c1]) (simp_all add: d1L_def d2L_def power_divide)
  have c3: "3 < length xs \<and> 229 / 10 \<le> xs ! 3 \<and> xs ! 3 \<le> 231 / 10"
    by (rule link[OF c2]) (simp_all add: d1L_def d2L_def power_divide)
  have c4: "4 < length xs \<and> 84 / 5 \<le> xs ! 4 \<and> xs ! 4 \<le> 1693 / 100"
    by (rule link[OF c3]) (simp_all add: d1L_def d2L_def power_divide)
  have c5: "5 < length xs \<and> 1349 / 100 \<le> xs ! 5 \<and> xs ! 5 \<le> 339 / 25"
    by (rule link[OF c4]) (simp_all add: d1L_def d2L_def power_divide)
  have c6: "6 < length xs \<and> 2443 / 200 \<le> xs ! 6 \<and> xs ! 6 \<le> 6117 / 500"
    by (rule link[OF c5]) (simp_all add: d1L_def d2L_def power_divide)
  have c7: "7 < length xs \<and> 600277 / 50000 \<le> xs ! 7 \<and> xs ! 7 \<le> 240131 / 20000"
    by (rule link[OF c6]) (simp_all add: d1L_def d2L_def power_divide)
  have c8: "8 < length xs \<and> 60000019 / 5000000 \<le> xs ! 8 \<and> xs ! 8 \<le> 60000027 / 5000000"
    by (rule link[OF c7]) (simp_all add: d1L_def d2L_def power_divide)
  have c9: "9 < length xs \<and> 12 + 18 / 10 ^ 13 \<le> xs ! 9 \<and> xs ! 9 \<le> 12 + 37 / 10 ^ 13"
    by (rule link[OF c8]) (simp_all add: d1L_def d2L_def power_divide)
  have c10: "10 < length xs \<and> 12 \<le> xs ! 10 \<and> xs ! 10 \<le> 12 + 1 / 10 ^ 20"
    by (rule link[OF c9]) (simp_all add: d1L_def d2L_def power_divide)
  have len: "length xs = 11"
  proof (rule ccontr)
    assume "length xs \<noteq> 11"
    with c10 have "Suc 10 < length xs" by simp
    with steps have "newton_step_ok 144 2 (1 / 10 ^ 9) 2000 xs 10" by blast
    then have "1 / 10 ^ 9 < d1L (xs ! 10) 144 2"
      by (simp add: newton_step_ok_def)
    moreover have "d1L (xs ! 10) 144 2 \<le> d1L (12 + 1 / 10 ^ 20) 144 2"
      using c10 by (intro d1L_144_mono) simp_all
    moreover have "d1L (12 + 1 / 10 ^ 20) 144 2 \<le> 1 / 10 ^ 9"
      by (simp add: d1L_def power_divide)
    ultimately show False by simp
  qed
  then have "last xs = xs ! 10"
    using ne by (simp add: last_conv_nth)
  with c10 len show ?thesis by simp
qed

lemma binary_144_run:
  "length (root_binary 144 2 (1 / 10 ^ 9) 2000) = 41 \<and>
   last (root_binary 144 2 (1 / 10 ^ 9) 2000) = 1649267441667 / 137438953472"
  by (simp add: root_binary_def binary_init_def binary_loop.simps Let_def power_divide)

text \<open>
  Claim C6. For \<open>x = 144\<close>, \<open>b = 2\<close>, \<open>tol = 10\<^sup>-\<^sup>9\<close> and the default \<open>max_iter = 2000\<close>:
  \<^verbatim>\<open>root_newton\<close> returns a trajectory of at most 11 elements whose last element is
  within \<open>10\<^sup>-\<^sup>9\<close> of \<open>12\<close>, and \<^verbatim>\<open>root_binary\<close> returns a trajectory of at most 41 elements
  whose last element is within about \<open>2\<cdot>10\<^sup>-\<^sup>1\<^sup>1\<close> of \<open>12\<close>. Over the reals both lengths are
  exactly 11 and 41, as in the notebook's output; the last Newton candidate lies in
  \<open>[12, 12 + 10\<^sup>-\<^sup>2\<^sup>0]\<close>, and the last midpoint is \<open>12 + 3/2\<^sup>3\<^sup>7\<close>, which is
  \<open>12 + 2.18\<dots>\<cdot>10\<^sup>-\<^sup>1\<^sup>1\<close>.
\<close>

theorem validation_run:
  "(\<exists>xs. root_newton 144 2 (1 / 10 ^ 9) max_iter_default = Inr xs \<and>
         length xs = 11 \<and> length xs \<le> 11 \<and> \<bar>last xs - 12\<bar> \<le> 1 / 10 ^ 9) \<and>
   length (root_binary 144 2 (1 / 10 ^ 9) max_iter_default) = 41 \<and>
   length (root_binary 144 2 (1 / 10 ^ 9) max_iter_default) \<le> 41 \<and>
   \<bar>last (root_binary 144 2 (1 / 10 ^ 9) max_iter_default) - 12\<bar> = 3 / 2 ^ 37 \<and>
   (2 / 10 ^ 11 :: real) < 3 / 2 ^ 37 \<and> (3 / 2 ^ 37 :: real) < 22 / 10 ^ 12"
proof -
  from root_newton_char[of 144 "1 / 10 ^ 9" 2 2000] obtain xs where
    r: "root_newton 144 2 (1 / 10 ^ 9) 2000 = Inr xs"
    by auto
  from newton_144_run[OF r] have
    n: "length xs = 11" "12 \<le> last xs" "last xs \<le> 12 + 1 / 10 ^ 20"
    by simp_all
  have "(12 + 1 / 10 ^ 20 :: real) \<le> 12 + 1 / 10 ^ 9" by simp
  with n(2,3) have "\<bar>last xs - 12\<bar> \<le> 1 / 10 ^ 9" by linarith
  with r n(1) have nwt: "\<exists>xs. root_newton 144 2 (1 / 10 ^ 9) max_iter_default = Inr xs \<and>
         length xs = 11 \<and> length xs \<le> 11 \<and> \<bar>last xs - 12\<bar> \<le> 1 / 10 ^ 9"
    by (simp add: max_iter_default_def)
  have bin: "length (root_binary 144 2 (1 / 10 ^ 9) max_iter_default) = 41"
    "\<bar>last (root_binary 144 2 (1 / 10 ^ 9) max_iter_default) - 12\<bar> = 3 / 2 ^ 37"
    using binary_144_run by (simp_all add: max_iter_default_def)
  have "(2 / 10 ^ 11 :: real) < 3 / 2 ^ 37" "(3 / 2 ^ 37 :: real) < 22 / 10 ^ 12"
    by simp_all
  with nwt bin show ?thesis by simp
qed

section \<open>Trajectories only grow, and no further than \<open>max_iter\<close> (claim C7)\<close>

text \<open>
  Claim C7. For \<open>max_iter \<ge> 1\<close>, the trajectory returned by \<^verbatim>\<open>root_newton\<close> and by
  \<^verbatim>\<open>root_binary\<close> is not empty and has at most \<open>max_iter\<close> elements. It grows by
  appending only: one execution of either loop body leaves the list as it was and adds
  exactly one element at its end, so the list of every state of a loop is a prefix of
  the list the loop ends with. (\<^verbatim>\<open>root_newton\<close> returns a trajectory unless the
  division raises; the statement is about the trajectory it returns.)
\<close>

theorem trajectory_append_only:
  "(1 \<le> max_iter \<longrightarrow>
      root_binary x b tol max_iter \<noteq> [] \<and> length (root_binary x b tol max_iter) \<le> max_iter) \<and>
   (1 \<le> max_iter \<and> root_newton x b tol max_iter = Inr xs \<longrightarrow>
      xs \<noteq> [] \<and> length xs \<le> max_iter) \<and>
   x_list_of (binary_body x b s) = x_list_of s @ [mean_of (binary_body x b s)] \<and>
   prefix (x_list_of s) (x_list_of (binary_loop x b tol max_iter s)) \<and>
   (newton_body x b (x_k, x_list) = Inr (y, ys) \<longrightarrow> ys = x_list @ [y]) \<and>
   (newton_loop x b tol max_iter (x_k, x_list) = Inr (y', zs) \<longrightarrow> prefix x_list zs)"
proof -
  have bin: "1 \<le> max_iter \<longrightarrow>
      root_binary x b tol max_iter \<noteq> [] \<and> length (root_binary x b tol max_iter) \<le> max_iter"
  proof
    assume m: "1 \<le> max_iter"
    from binary_loop_after[of x b tol max_iter] obtain n where
      "length (root_binary x b tol max_iter) = Suc n" by blast
    then have "root_binary x b tol max_iter \<noteq> []" by auto
    with root_binary_length[OF m, of x b tol]
    show "root_binary x b tol max_iter \<noteq> [] \<and> length (root_binary x b tol max_iter) \<le> max_iter"
      by simp
  qed
  have nwt: "1 \<le> max_iter \<and> root_newton x b tol max_iter = Inr xs \<longrightarrow>
      xs \<noteq> [] \<and> length xs \<le> max_iter"
  proof
    assume a: "1 \<le> max_iter \<and> root_newton x b tol max_iter = Inr xs"
    then obtain y' where
      l: "newton_loop x b tol max_iter (x / 2, [x / 2]) = Inr (y', xs)"
      by (cases "newton_loop x b tol max_iter (x / 2, [x / 2])")
         (auto simp: root_newton_def Let_def)
    from newton_loop_extends[OF l] a show "xs \<noteq> [] \<and> length xs \<le> max_iter"
      by (auto simp: prefix_def)
  qed
  have "newton_loop x b tol max_iter (x_k, x_list) = Inr (y', zs) \<longrightarrow> prefix x_list zs"
    using newton_loop_extends[of x b tol max_iter x_k x_list y' zs] by simp
  moreover have "newton_body x b (x_k, x_list) = Inr (y, ys) \<longrightarrow> ys = x_list @ [y]"
    using newton_body_appends[of x b x_k x_list y ys] by simp
  ultimately show ?thesis
    using bin nwt binary_body_x_list[of x b s] binary_loop_extends[of s x b tol max_iter]
    by blast
qed

theorem trajectory_append_only_witness:
  "(1::nat) \<le> 3 \<and> root_binary 144 2 1 3 = [36, 36, 18] \<and>
   root_newton 144 2 1 3 = Inr [72, 5184 / 107, 1934917632 / 58681261] \<and>
   length [72, 5184 / 107, 1934917632 / 58681261 :: real] \<le> 3 \<and>
   newton_body 144 2 (72, [72]) = Inr (5184 / 107, [72, 5184 / 107]) \<and>
   newton_loop 144 2 1 3 (72, [72]) =
     Inr (1934917632 / 58681261, [72, 5184 / 107, 1934917632 / 58681261]) \<and>
   prefix [72] [72, 5184 / 107, 1934917632 / 58681261 :: real] \<and>
   length (root_binary 144 2 1 3) \<le> 3"
proof -
  have e1: "root_binary 144 2 1 3 = [36, 36, 18]"
    by (simp add: root_binary_def binary_init_def binary_loop.simps Let_def power_divide)
  have e2: "root_newton 144 2 1 3 = Inr [72, 5184 / 107, 1934917632 / 58681261]"
    by (simp add: root_newton_def newton_loop.simps d1L_def d2L_def Let_def power_divide)
  have e3: "newton_body 144 2 (72, [72]) = Inr (5184 / 107, [72, 5184 / 107])"
    by (simp add: d1L_def d2L_def Let_def power_divide)
  have e4: "newton_loop 144 2 1 3 (72, [72]) =
     Inr (1934917632 / 58681261, [72, 5184 / 107, 1934917632 / 58681261])"
    by (simp add: newton_loop.simps d1L_def d2L_def Let_def power_divide)
  show ?thesis
    using e1 e2 e3 e4
      trajectory_append_only[where max_iter = 3 and x = 144 and b = 2 and tol = 1
        and xs = "[72, 5184 / 107, 1934917632 / 58681261]" and s = "binary_init 144"
        and x_k = 72 and x_list = "[72]" and y = "5184 / 107" and ys = "[72, 5184 / 107]"
        and y' = "1934917632 / 58681261"
        and zs = "[72, 5184 / 107, 1934917632 / 58681261]"]
    by simp
qed

section \<open>The bracket of the bisection (claim C8)\<close>




section \<open>Newton's loop does not start below the root (claim C9)\<close>

text \<open>
  Claim C9 says that for every input with \<open>d1L(x/2, x, b) \<le> tol\<close>, in particular for
  \<open>b = 1\<close> and every \<open>x > 0\<close>, \<^verbatim>\<open>root_newton\<close> returns \<open>[x/2]\<close>. On Python's floats the
  test cannot always be evaluated: for \<open>b = 1\<close> and \<open>x = 2\<^sup>7\<^sup>0\<^sup>0\<close>, where \<open>(x/2)\<^sup>b \<le> x\<close> and
  \<open>d1L(x/2, x, b) \<le> 0\<close>, \<^verbatim>\<open>root_newton(2.0**700, 1, 2.0**-56, 2000)\<close> raises
  \<^verbatim>\<open>OverflowError\<close> at \<^verbatim>\<open>x_k**(b+1)\<close>.
\<close>

theorem root_newton_overflows_b1:
  "(1::nat) = 1 \<and> (0::real) < 2 ^ 700 \<and> ((2::real) ^ 700 / 2) ^ 1 \<le> 2 ^ 700 \<and>
   d1L (2 ^ 700 / 2) (2 ^ 700) 1 \<le> 1 / 2 ^ 56 \<and>
   py_root_newton binary64 (PyFloat (Fin (2 ^ 700))) 1 (PyFloat (Fin (1 / 2 ^ 56))) 2000
     = Inl OverflowError"
proof -
  have h: "py_truediv binary64 (PyFloat (Fin (2 ^ Suc 699))) (py_int binary64 2) =
              Inr (PyFloat (Fin (2 ^ 699)))"
    unfolding binary64_fields by (rule half_of_pow2) simp
  have e: "(1::nat) + 1 = 2" by simp
  have p: "py_pow binary64 (PyFloat (Fin (2 ^ 699))) (1 + 1) = Inl OverflowError"
    unfolding e binary64_fields by (rule square_overflows) simp
  have r: "py_root_newton binary64 (PyFloat (Fin (2 ^ Suc 699))) 1 (PyFloat (Fin (1 / 2 ^ 56))) 2000
     = Inl OverflowError"
    by (rule py_root_newton_raises[OF h p])
  have d: "d1L (2 ^ 700 / 2) (2 ^ 700) 1 \<le> 0"
    by (rule d1L_start_nonpos) simp_all
  have "d1L (2 ^ 700 / 2) (2 ^ 700) 1 \<le> 1 / 2 ^ 56"
    by (rule order_trans[OF d]) simp
  with r show ?thesis by simp
qed

text \<open>
  Claim C9, amended. The test of \<^verbatim>\<open>root_newton\<close>'s loop is the signed
  \<open>d1L(x_k, x, b) > tol\<close>, with no absolute value. Hence, in whatever arithmetic, if
  \<open>x/2\<close> and \<open>d1L(x/2, x, b)\<close> evaluate without an exception and the computed value is not
  greater than \<open>tol\<close>, the loop body never runs and the result is the one-element
  trajectory \<open>[x/2]\<close>. On Python's floats this is the case, for a float \<open>x\<close> and a finite
  \<open>tol \<ge> 0\<close> (and \<open>b + 1 < 2\<^sup>5\<^sup>3\<close>), whenever \<open>d1L(q, x, b)\<close> evaluates without an exception
  and \<open>q\<^sup>b \<le> x\<close>, where \<open>q \<ge> 0\<close> is the computed \<open>x/2\<close>. In exact arithmetic \<open>d1L(r/2, r, b)\<close>
  is not positive whenever \<open>r > 0\<close> and \<open>(r/2)\<^sup>b \<le> r\<close>, which is the case for every
  \<open>0 < r \<le> 2\<^bsup>b/(b-1)\<^esup>\<close> when \<open>b \<ge> 2\<close>, and for every \<open>r > 0\<close> when \<open>b = 1\<close>.
\<close>

theorem py_root_newton_no_iteration:
  "(py_truediv A x (py_int A 2) = Inr x0 \<and> py_d1L A x0 x b = Inr d \<and> \<not> py_gt A d tol \<longrightarrow>
      py_root_newton A x b tol max_iter = Inr [x0]) \<and>
   (py_truediv binary64 (PyFloat (Fin y)) (py_int binary64 2) = Inr (PyFloat (Fin q)) \<and>
    py_d1L binary64 (PyFloat (Fin q)) (PyFloat (Fin y)) b = Inr d' \<and>
    0 \<le> q \<and> q ^ b \<le> y \<and> int b + 1 < 2 ^ 53 \<and> num_finite t \<and> 0 \<le> num_real t \<longrightarrow>
      py_root_newton binary64 (PyFloat (Fin y)) b t max_iter = Inr [PyFloat (Fin q)]) \<and>
   (0 < r \<and> (r / 2) ^ b \<le> r \<longrightarrow> d1L (r / 2) r b \<le> 0) \<and>
   (2 \<le> b \<and> 0 < r \<and> r \<le> 2 powr (real b / (real b - 1)) \<longrightarrow> (r / 2) ^ b \<le> r) \<and>
   (b = 1 \<and> 0 < r \<longrightarrow> (r / 2) ^ b \<le> r)"
proof -
  have stop: "py_truediv A x (py_int A 2) = Inr x0 \<and> py_d1L A x0 x b = Inr d \<and> \<not> py_gt A d tol
      \<longrightarrow> py_root_newton A x b tol max_iter = Inr [x0]"
    using py_root_newton_stops_at_start[of A x x0 b d tol max_iter] by blast
  have flt: "py_truediv binary64 (PyFloat (Fin y)) (py_int binary64 2) = Inr (PyFloat (Fin q)) \<and>
    py_d1L binary64 (PyFloat (Fin q)) (PyFloat (Fin y)) b = Inr d' \<and>
    0 \<le> q \<and> q ^ b \<le> y \<and> int b + 1 < 2 ^ 53 \<and> num_finite t \<and> 0 \<le> num_real t \<longrightarrow>
      py_root_newton binary64 (PyFloat (Fin y)) b t max_iter = Inr [PyFloat (Fin q)]"
    using binary64_no_iteration[of y q b d' t max_iter] by blast
  have neg: "0 < r \<and> (r / 2) ^ b \<le> r \<longrightarrow> d1L (r / 2) r b \<le> 0"
    using d1L_start_nonpos[of r b] by blast
  have pw: "2 \<le> b \<and> 0 < r \<and> r \<le> 2 powr (real b / (real b - 1)) \<longrightarrow> (r / 2) ^ b \<le> r"
    using half_pow_le[of b r] by blast
  have one: "b = 1 \<and> 0 < r \<longrightarrow> (r / 2) ^ b \<le> r"
    by auto
  from stop flt neg pw one show ?thesis by blast
qed

theorem py_root_newton_no_iteration_witness:
  "py_truediv binary64 (PyFloat (Fin 4)) (py_int binary64 2) = Inr (PyFloat (Fin 2)) \<and>
   py_d1L binary64 (PyFloat (Fin 2)) (PyFloat (Fin 4)) 1 = Inr (PyFloat (Fin (- 8))) \<and>
   \<not> py_gt binary64 (PyFloat (Fin (- 8))) (PyFloat (Fin (1 / 2 ^ 56))) \<and>
   py_root_newton binary64 (PyFloat (Fin 4)) 1 (PyFloat (Fin (1 / 2 ^ 56))) 2000 =
     Inr [PyFloat (Fin 2)] \<and>
   (0::real) \<le> 2 \<and> (2::real) ^ 1 \<le> 4 \<and> int 1 + 1 < 2 ^ 53 \<and>
   num_finite (PyFloat (Fin (1 / 2 ^ 56))) \<and> 0 \<le> num_real (PyFloat (Fin (1 / 2 ^ 56))) \<and>
   (1::nat) = 1 \<and> (0::real) < 5 \<and> ((5::real) / 2) ^ 1 \<le> 5 \<and> d1L (5 / 2) 5 1 \<le> 0 \<and>
   py_truediv binary64 (PyFloat (Fin 3)) (py_int binary64 2) = Inr (PyFloat (Fin (3 / 2))) \<and>
   py_d1L binary64 (PyFloat (Fin (3 / 2))) (PyFloat (Fin 3)) 2 = Inr (PyFloat (Fin (- (9 / 2)))) \<and>
   (0::real) \<le> 3 / 2 \<and> ((3::real) / 2) ^ 2 \<le> 3 \<and> int 2 + 1 < 2 ^ 53 \<and>
   py_root_newton binary64 (PyFloat (Fin 3)) 2 (PyFloat (Fin (1 / 2 ^ 56))) 2000 =
     Inr [PyFloat (Fin (3 / 2))] \<and>
   (2::nat) \<le> 2 \<and> (0::real) < 3 \<and> (3::real) \<le> 2 powr (real 2 / (real 2 - 1)) \<and>
   d1L (3 / 2) 3 2 \<le> 0"
proof -
  have h: "(3::real) \<le> 2 powr (real 2 / (real 2 - 1))" "((3::real) / 2) ^ 2 \<le> 3"
    "((5::real) / 2) ^ 1 \<le> 5"
    by (simp_all add: power_divide)
  show ?thesis
    using h binary64_newton_4_1 binary64_newton_3_2
      py_root_newton_no_iteration[where A = binary64 and x = "PyFloat (Fin 4)"
        and x0 = "PyFloat (Fin 2)" and b = 1 and d = "PyFloat (Fin (- 8))"
        and tol = "PyFloat (Fin (1 / 2 ^ 56))" and max_iter = 2000 and r = 5
        and y = 4 and q = 2 and d' = "PyFloat (Fin (- 8))" and t = "PyFloat (Fin (1 / 2 ^ 56))"]
      py_root_newton_no_iteration[where A = binary64 and x = "PyFloat (Fin 3)"
        and x0 = "PyFloat (Fin (3 / 2))" and b = 2 and d = "PyFloat (Fin (- (9 / 2)))"
        and tol = "PyFloat (Fin (1 / 2 ^ 56))" and max_iter = 2000 and r = 3
        and y = 3 and q = "3 / 2" and d' = "PyFloat (Fin (- (9 / 2)))"
        and t = "PyFloat (Fin (1 / 2 ^ 56))"]
    by (simp add: power_divide)
qed

section \<open>The repeated first element of the bisection (claim C10)\<close>



end
